theory Spec2Isabelle
  imports Main "HOL-Library.Sublist"
begin

section \<open>JavaScript values and the operators the extractors use\<close>

text \<open>
  Everything \<open>src/utils/api.ts\<close> navigates comes out of \<open>JSON.parse\<close>, so a value is
  one of the JSON shapes, or \<open>undefined\<close> (what reading an absent property gives).
  Numbers are kept as integers (of a number of the response the extractors only
  ask whether it is zero); strings are lists of characters with codes below 256.
  An object is the list of its own properties, the first binding of a key being the
  one that is read.
\<close>

datatype jsval =
    JUndefined
  | JNull
  | JBool bool
  | JNum int
  | JStr string
  | JArr "jsval list"
  | JObj "(string \<times> jsval) list"

text \<open>What a \<open>throw\<close> carries: the two built-in errors the code can meet, and
  anything else a callback raises.\<close>

datatype js_error = TypeError | SyntaxError | Thrown string

type_synonym 'a result = "js_error + 'a"

definition bindR :: "'a result \<Rightarrow> ('a \<Rightarrow> 'b result) \<Rightarrow> 'b result" where
  "bindR m f = (case m of Inl e \<Rightarrow> Inl e | Inr v \<Rightarrow> f v)"

text \<open>\<open>v == null\<close>: the test behind \<open>?.\<close> and \<open>??\<close>.\<close>

fun nullish :: "jsval \<Rightarrow> bool" where
  "nullish JUndefined = True"
| "nullish JNull = True"
| "nullish _ = False"

text \<open>ToBoolean, the test behind \<open>if (v)\<close> and \<open>&&\<close>.\<close>

fun truthy :: "jsval \<Rightarrow> bool" where
  "truthy JUndefined = False"
| "truthy JNull = False"
| "truthy (JBool b) = b"
| "truthy (JNum n) = (n \<noteq> 0)"
| "truthy (JStr s) = (s \<noteq> [])"
| "truthy (JArr _) = True"
| "truthy (JObj _) = True"

text \<open>
  The value of \<open>v.k\<close> for a \<open>v\<close> that is neither \<open>null\<close> nor \<open>undefined\<close>. The keys
  are the property names the source reads (\<open>type\<close>, \<open>entries\<close>, \<open>content\<close>,
  \<open>legacy\<close>, ...): none of them is inherited by a JSON object, a string, a number or
  a boolean, so only an object's own properties answer. (\<open>entries\<close> is a method of
  arrays; the source reads it only from a value whose \<open>type\<close> is a string, which no
  parsed array has.)
\<close>

fun js_field :: "jsval \<Rightarrow> string \<Rightarrow> jsval" where
  "js_field (JObj fs) k = (case map_of fs k of Some v \<Rightarrow> v | None \<Rightarrow> JUndefined)"
| "js_field _ k = JUndefined"

text \<open>\<open>v.k\<close>: a TypeError on \<open>null\<close> and \<open>undefined\<close>.\<close>

definition get_prop :: "jsval \<Rightarrow> string \<Rightarrow> jsval result" where
  "get_prop v k = (if nullish v then Inl TypeError else Inr (js_field v k))"

text \<open>\<open>v?.k\<close> with nothing after it.\<close>

definition opt_prop :: "jsval \<Rightarrow> string \<Rightarrow> jsval result" where
  "opt_prop v k = (if nullish v then Inr JUndefined else get_prop v k)"

section \<open>Response decoder\<close>

text \<open>Of the \<open>XMLHttpRequest\<close> only \<open>responseText\<close> is read.\<close>

record XMLHttpRequest =
  responseText :: string

text \<open>\<open>isTimelineEntryItem(entry)\<close>: \<open>entry.content.entryType === 'TimelineTimelineItem'\<close>.\<close>

definition isTimelineEntryItem :: "jsval \<Rightarrow> bool result" where
  "isTimelineEntryItem entry =
     bindR (get_prop entry ''content'') (\<lambda>content.
     bindR (get_prop content ''entryType'') (\<lambda>entryType.
     Inr (entryType = JStr ''TimelineTimelineItem'')))"

text \<open>\<open>xs.find((i) => i.type === 'TimelineAddEntries')\<close> on the elements of an array:
  the first element that passes, \<open>undefined\<close> when none does.\<close>

fun find_TimelineAddEntries :: "jsval list \<Rightarrow> jsval result" where
  "find_TimelineAddEntries [] = Inr JUndefined"
| "find_TimelineAddEntries (i # is) =
     (case get_prop i ''type'' of
        Inl e \<Rightarrow> Inl e
      | Inr t \<Rightarrow> if t = JStr ''TimelineAddEntries'' then Inr i else find_TimelineAddEntries is)"

text \<open>\<open>instructions.find(...)\<close>: only an array has the method; calling it on anything
  else is a TypeError.\<close>

fun instructions_find :: "jsval \<Rightarrow> jsval result" where
  "instructions_find (JArr is) = find_TimelineAddEntries is"
| "instructions_find _ = Inl TypeError"

text \<open>The values \<open>for (const entry of v)\<close> runs through: the elements of an array, the
  characters of a string; anything else is not iterable.\<close>

fun iterate :: "jsval \<Rightarrow> jsval list result" where
  "iterate (JArr xs) = Inr xs"
| "iterate (JStr s) = Inr (map (\<lambda>c. JStr [c]) s)"
| "iterate _ = Inl TypeError"

text \<open>The body of the \<open>for\<close> loop of \<open>extractDataFromResponse\<close>, with \<open>newData\<close> as
  accumulator; an exception leaves the loop.\<close>

fun collect_entries :: "(jsval \<Rightarrow> jsval result) \<Rightarrow> jsval list \<Rightarrow> jsval list \<Rightarrow> jsval list result" where
  "collect_entries extractDataFromTimelineEntry [] newData = Inr newData"
| "collect_entries extractDataFromTimelineEntry (entry # rest) newData =
     (case isTimelineEntryItem entry of
        Inl e \<Rightarrow> Inl e
      | Inr False \<Rightarrow> collect_entries extractDataFromTimelineEntry rest newData
      | Inr True \<Rightarrow>
          (case extractDataFromTimelineEntry entry of
             Inl e \<Rightarrow> Inl e
           | Inr data \<Rightarrow>
               if truthy data
               then collect_entries extractDataFromTimelineEntry rest (newData @ [data])
               else collect_entries extractDataFromTimelineEntry rest newData))"

text \<open>
  \<open>extractDataFromResponse\<close>. \<open>JSON.parse\<close> belongs to the platform and is a parameter
  (it raises a SyntaxError on a malformed body); the two callbacks may raise as well.
\<close>

definition extractDataFromResponse ::
  "(string \<Rightarrow> jsval result) \<Rightarrow> XMLHttpRequest \<Rightarrow> (jsval \<Rightarrow> jsval result) \<Rightarrow>
   (jsval \<Rightarrow> jsval result) \<Rightarrow> jsval list result" where
  "extractDataFromResponse JSON_parse response extractInstructionsFromJson extractDataFromTimelineEntry =
     bindR (JSON_parse (responseText response)) (\<lambda>json.
     bindR (extractInstructionsFromJson json) (\<lambda>instructions.
     bindR (instructions_find instructions) (\<lambda>timelineAddEntriesInstruction.
     bindR (get_prop timelineAddEntriesInstruction ''entries'') (\<lambda>entries.
     bindR (iterate entries) (\<lambda>es.
     collect_entries extractDataFromTimelineEntry es [])))))"

section \<open>Tweet normalizer\<close>

definition extractTweetWithVisibility :: "jsval \<Rightarrow> jsval result" where
  "extractTweetWithVisibility tweet =
     bindR (opt_prop tweet ''__typename'') (\<lambda>typename.
     if typename = JStr ''TweetWithVisibilityResults''
     then get_prop tweet ''tweet''
     else Inr tweet)"

text \<open>\<open>extractRetweetedTweet\<close>. The source reads
  \<open>tweet.legacy.retweeted_status_result.result\<close> a second time after the test; reads
  have no effect, so the value of the first read stands for it.\<close>

definition extractRetweetedTweet :: "jsval \<Rightarrow> jsval result" where
  "extractRetweetedTweet tweet =
     bindR (get_prop tweet ''legacy'') (\<lambda>legacy.
     bindR (get_prop legacy ''retweeted_status_result'') (\<lambda>rsr.
     bindR (opt_prop rsr ''result'') (\<lambda>r.
     if truthy r then extractTweetWithVisibility r else Inr JNull)))"

definition extractQuotedTweet :: "jsval \<Rightarrow> jsval result" where
  "extractQuotedTweet tweet =
     bindR (get_prop tweet ''quoted_status_result'') (\<lambda>qsr.
     bindR (opt_prop qsr ''result'') (\<lambda>r.
     if truthy r then extractTweetWithVisibility r else Inr JNull))"

text \<open>
  Modelled from the spec: the module \<open>./logger\<close> is not part of the sources; the spec
  describes it as a sink accepting (message, error, context). \<open>logger.error\<close> appends
  one such event to the sink. \<open>console.log\<close> writes to the console, a different
  stream.
\<close>

record io =
  console :: "jsval list"
  logger :: "(string \<times> js_error \<times> jsval) list"

definition console_log :: "jsval \<Rightarrow> io \<Rightarrow> io" where
  "console_log v s = s\<lparr>console := console s @ [v]\<rparr>"

definition logger_error :: "string \<Rightarrow> js_error \<Rightarrow> jsval \<Rightarrow> io \<Rightarrow> io" where
  "logger_error msg err ctx s = s\<lparr>logger := logger s @ [(msg, err, ctx)]\<rparr>"

text \<open>The expression inside the \<open>try\<close>:
  \<open>tweet.core.user_results.result.legacy.screen_name\<close>.\<close>

definition read_screen_name :: "jsval \<Rightarrow> jsval result" where
  "read_screen_name tweet =
     bindR (get_prop tweet ''core'') (\<lambda>core.
     bindR (get_prop core ''user_results'') (\<lambda>user_results.
     bindR (get_prop user_results ''result'') (\<lambda>result.
     bindR (get_prop result ''legacy'') (\<lambda>legacy.
     get_prop legacy ''screen_name''))))"

definition extractTweetUserScreenName :: "jsval \<Rightarrow> io \<Rightarrow> jsval \<times> io" where
  "extractTweetUserScreenName tweet s =
     (case read_screen_name tweet of
        Inr name \<Rightarrow> (name, s)
      | Inl err \<Rightarrow>
          (JStr ''READ_ERROR'',
           logger_error ''Failed to extract tweet user screen name'' err tweet
             (console_log tweet s)))"

text \<open>\<open>extractTweetMedia\<close>. \<open>extractRetweetedTweet(tweet) ?? tweet\<close> falls back to the
  tweet when the retweet is \<open>null\<close>; the second reads of \<open>realTweet.legacy\<close> and of
  the extended-entities media list give the values of the first ones.\<close>

definition extractTweetMedia :: "jsval \<Rightarrow> jsval result" where
  "extractTweetMedia tweet =
     bindR (extractRetweetedTweet tweet) (\<lambda>retweeted.
     let realTweet = (if nullish retweeted then tweet else retweeted) in
     bindR (get_prop realTweet ''legacy'') (\<lambda>legacy.
     bindR (get_prop legacy ''extended_entities'') (\<lambda>extended_entities.
     bindR (opt_prop extended_entities ''media'') (\<lambda>media.
     if truthy media then Inr media
     else
       bindR (get_prop legacy ''entities'') (\<lambda>entities.
       bindR (get_prop entities ''media'') (\<lambda>media'.
       Inr (if nullish media' then JArr [] else media')))))))"

text \<open>\<open>tweet.note_tweet?.note_tweet_results.result.text ?? tweet.legacy.full_text\<close>:
  an absent \<open>note_tweet\<close> short-circuits the whole chain to \<open>undefined\<close>.\<close>

definition extractTweetFullText :: "jsval \<Rightarrow> jsval result" where
  "extractTweetFullText tweet =
     bindR (get_prop tweet ''note_tweet'') (\<lambda>note_tweet.
     bindR (if nullish note_tweet then Inr JUndefined
            else
              bindR (get_prop note_tweet ''note_tweet_results'') (\<lambda>note_tweet_results.
              bindR (get_prop note_tweet_results ''result'') (\<lambda>result.
              get_prop result ''text''))) (\<lambda>text.
     if nullish text
     then bindR (get_prop tweet ''legacy'') (\<lambda>legacy. get_prop legacy ''full_text'')
     else Inr text))"

section \<open>Media resolver\<close>

subsection \<open>Regular expressions\<close>

text \<open>
  The patterns \<open>/format=(\w+)|\.(\w+)$|\.(\w+)\?.+$/\<close> of \<open>getFileExtensionFromUrl\<close>
  and \<open>/^(https?:\/\/pbs\.twimg\.com\/media\/.+)\.(\w+)$/\<close> of \<open>formatTwitterImage\<close>
  are written with literal characters, the classes
  \<open>\w\<close> and \<open>.\<close>, the greedy quantifiers \<open>+\<close> and \<open>?\<close> on a single character or
  class, capture groups, alternation and the anchors \<open>^\<close> and \<open>$\<close>. That fragment is
  the datatype below. None of the patterns has a flag, so \<open>\w\<close> is \<open>[A-Za-z0-9_]\<close>,
  \<open>.\<close> is any character but a line terminator, and the anchors are the two ends of
  the input.
\<close>

datatype cclass = CChar char | CWord | CAny

definition is_word_char :: "char \<Rightarrow> bool" where
  "is_word_char c = (c \<in> set ''ABCDEFGHIJKLMNOPQRSTUVWXYZabcdefghijklmnopqrstuvwxyz0123456789_'')"

definition is_line_terminator :: "char \<Rightarrow> bool" where
  "is_line_terminator c = (c = CHR 0x0A \<or> c = CHR 0x0D)"

fun in_class :: "cclass \<Rightarrow> char \<Rightarrow> bool" where
  "in_class (CChar a) c = (c = a)"
| "in_class CWord c = is_word_char c"
| "in_class CAny c = (\<not> is_line_terminator c)"

datatype regex =
    REps
  | RAtom cclass
  | RSeq regex regex
  | RAlt regex regex
  | RPlus cclass
  | ROpt cclass
  | RGroup nat regex
  | RBol
  | REol

text \<open>
  A state of the matcher: the index reached in the input, the rest of the input and
  the text of the groups that took part (the latest capture first). \<open>rmatch r st\<close> is
  the list of the states in which \<open>r\<close> can end when started in \<open>st\<close>, in the order in
  which a backtracking matcher tries them: the left alternative before the right
  one, the longest repetition first. The match that \<open>RegExp.prototype.exec\<close> reports
  is the first of them.
\<close>

type_synonym captures = "(nat \<times> string) list"

type_synonym mstate = "nat \<times> string \<times> captures"

fun rmatch :: "regex \<Rightarrow> mstate \<Rightarrow> mstate list" where
  "rmatch REps st = [st]"
| "rmatch (RAtom c) (i, s, g) =
     (case s of [] \<Rightarrow> [] | x # xs \<Rightarrow> if in_class c x then [(Suc i, xs, g)] else [])"
| "rmatch (RSeq a b) st = concat (map (rmatch b) (rmatch a st))"
| "rmatch (RAlt a b) st = rmatch a st @ rmatch b st"
| "rmatch (RPlus c) (i, s, g) =
     map (\<lambda>k. (i + k, drop k s, g)) (rev [1..<Suc (length (takeWhile (in_class c) s))])"
| "rmatch (ROpt c) (i, s, g) =
     (case s of [] \<Rightarrow> [] | x # xs \<Rightarrow> if in_class c x then [(Suc i, xs, g)] else []) @ [(i, s, g)]"
| "rmatch (RGroup n r) (i, s, g) =
     map (\<lambda>(j, s', g'). (j, s', (n, take (j - i) s) # g')) (rmatch r (i, s, g))"
| "rmatch RBol (i, s, g) = (if i = 0 then [(i, s, g)] else [])"
| "rmatch REol (i, s, g) = (if s = [] then [(i, s, g)] else [])"

text \<open>A run of literal characters.\<close>

fun lit :: "string \<Rightarrow> regex" where
  "lit [] = REps"
| "lit (c # cs) = RSeq (RAtom (CChar c)) (lit cs)"

text \<open>\<open>regex.exec(s)\<close> for a pattern without the \<open>g\<close> and \<open>y\<close> flags: the start
  positions are tried from the left, the end of the input included.\<close>

fun exec_from :: "regex \<Rightarrow> nat \<Rightarrow> string \<Rightarrow> captures option" where
  "exec_from r i [] =
     (case rmatch r (i, [], []) of (_, _, g) # _ \<Rightarrow> Some g | [] \<Rightarrow> None)"
| "exec_from r i (c # cs) =
     (case rmatch r (i, c # cs, []) of
        (_, _, g) # _ \<Rightarrow> Some g
      | [] \<Rightarrow> exec_from r (Suc i) cs)"

definition regex_exec :: "regex \<Rightarrow> string \<Rightarrow> captures option" where
  "regex_exec r s = exec_from r 0 s"

text \<open>\<open>match[n]\<close>: \<open>undefined\<close> for a group that took no part in the match.\<close>

definition group :: "captures \<Rightarrow> nat \<Rightarrow> string option" where
  "group g n = map_of g n"

subsection \<open>URL operations\<close>

definition fileExtension_regex :: regex where
  "fileExtension_regex =
     RAlt (RSeq (lit ''format='') (RGroup 1 (RPlus CWord)))
    (RAlt (RSeq (RAtom (CChar CHR ''.'')) (RSeq (RGroup 2 (RPlus CWord)) REol))
         (RSeq (RAtom (CChar CHR ''.'')) (RSeq (RGroup 3 (RPlus CWord))
            (RSeq (RAtom (CChar CHR ''?'')) (RSeq (RPlus CAny) REol)))))"

definition getFileExtensionFromUrl :: "string \<Rightarrow> string" where
  "getFileExtensionFromUrl u =
     (case regex_exec fileExtension_regex u of
        None \<Rightarrow> ''jpg''
      | Some m \<Rightarrow>
          (case group m 1 of Some e \<Rightarrow> e | None \<Rightarrow>
          (case group m 2 of Some e \<Rightarrow> e | None \<Rightarrow>
          (case group m 3 of Some e \<Rightarrow> e | None \<Rightarrow> ''jpg''))))"

definition twitterImage_regex :: regex where
  "twitterImage_regex =
     RSeq RBol
    (RSeq (RGroup 1 (RSeq (lit ''http'') (RSeq (ROpt (CChar CHR ''s''))
            (RSeq (lit ''://pbs.twimg.com/media/'') (RPlus CAny)))))
    (RSeq (RAtom (CChar CHR ''.'')) (RSeq (RGroup 2 (RPlus CWord)) REol)))"

datatype image_size = thumb | small | medium | large | orig

fun image_size_str :: "image_size \<Rightarrow> string" where
  "image_size_str thumb = ''thumb''"
| "image_size_str small = ''small''"
| "image_size_str medium = ''medium''"
| "image_size_str large = ''large''"
| "image_size_str orig = ''orig''"

text \<open>A value inside a template literal.\<close>

definition template :: "string option \<Rightarrow> string" where
  "template v = (case v of None \<Rightarrow> ''undefined'' | Some s \<Rightarrow> s)"

text \<open>\<open>formatTwitterImage(imgUrl, name = 'medium')\<close>: the second argument may be left
  out.\<close>

definition formatTwitterImage :: "string \<Rightarrow> image_size option \<Rightarrow> string" where
  "formatTwitterImage imgUrl name_arg =
     (let name = (case name_arg of None \<Rightarrow> medium | Some n \<Rightarrow> n) in
      case regex_exec twitterImage_regex imgUrl of
        None \<Rightarrow> imgUrl @ ''?name='' @ image_size_str name
      | Some m \<Rightarrow>
          template (group m 1) @ ''?format='' @ template (group m 2) @ ''&name='' @ image_size_str name)"

subsection \<open>Media records\<close>

text \<open>
  Modelled from the spec: the interfaces \<open>Media\<close> and \<open>Variant\<close> of \<open>@/types\<close> are not
  part of the sources. A media record has a type among \<open>photo\<close>, \<open>video\<close> and
  \<open>animated_gif\<close>, a base https URL and, for a video or a gif, a list of variants,
  each with an optional bitrate and a URL. \<open>getMediaOriginalUrl\<close> compares bitrates
  with \<open>>\<close>, so the record is taken at its declared type: a bitrate is a number, and
  the numbers are the integers.
\<close>

datatype media_type = photo | video | animated_gif

record Variant =
  bitrate :: "int option"
  url :: string

record VideoInfo =
  variants :: "Variant list option"

record Media =
  type :: media_type
  media_url_https :: string
  video_info :: "VideoInfo option"

text \<open>\<open>maxBitrateVariant?.bitrate ?? 0\<close>\<close>

definition bitrate_or_0 :: "Variant option \<Rightarrow> int" where
  "bitrate_or_0 v = (case v of None \<Rightarrow> 0 | Some w \<Rightarrow> (case bitrate w of None \<Rightarrow> 0 | Some b \<Rightarrow> b))"

text \<open>The \<open>for\<close> loop of \<open>getMediaOriginalUrl\<close>; its test is
  \<open>variant.bitrate && variant.bitrate > (maxBitrateVariant?.bitrate ?? 0)\<close>.\<close>

fun max_bitrate_loop :: "Variant list \<Rightarrow> Variant option \<Rightarrow> Variant option" where
  "max_bitrate_loop [] maxBitrateVariant = maxBitrateVariant"
| "max_bitrate_loop (variant # rest) maxBitrateVariant =
     (if (case bitrate variant of None \<Rightarrow> False
          | Some b \<Rightarrow> b \<noteq> 0 \<and> b > bitrate_or_0 maxBitrateVariant)
      then max_bitrate_loop rest (Some variant)
      else max_bitrate_loop rest maxBitrateVariant)"

text \<open>\<open>media.video_info?.variants ?? []\<close>\<close>

definition media_variants :: "Media \<Rightarrow> Variant list" where
  "media_variants media =
     (case video_info media of None \<Rightarrow> []
      | Some vi \<Rightarrow> (case variants vi of None \<Rightarrow> [] | Some vs \<Rightarrow> vs))"

definition getMediaOriginalUrl :: "Media \<Rightarrow> string" where
  "getMediaOriginalUrl media =
     (if type media = video \<or> type media = animated_gif then
        (let variants = media_variants media;
             maxBitrateVariant = max_bitrate_loop variants
               (case variants of [] \<Rightarrow> None | v # _ \<Rightarrow> Some v)
         in case maxBitrateVariant of
              None \<Rightarrow> media_url_https media
            | Some v \<Rightarrow> url v)
      else formatTwitterImage (media_url_https media) (Some orig))"

section \<open>Shapes of well-formed data, in the words of the specification\<close>

text \<open>Reading along a path of property names, \<open>undefined\<close> as soon as something is
  missing: the view of the data that never raises.\<close>

fun js_path :: "jsval \<Rightarrow> string list \<Rightarrow> jsval" where
  "js_path v [] = v"
| "js_path v (k # ks) = js_path (js_field v k) ks"

fun is_object :: "jsval \<Rightarrow> bool" where
  "is_object (JObj _) = True"
| "is_object _ = False"

fun is_array :: "jsval \<Rightarrow> bool" where
  "is_array (JArr _) = True"
| "is_array _ = False"

definition array_or_absent :: "jsval \<Rightarrow> bool" where
  "array_or_absent v = (is_array v \<or> nullish v)"

text \<open>
  Modelled from the spec: the interfaces \<open>Tweet\<close> and \<open>TweetWithVisibilityResults\<close> of
  \<open>@/types\<close> are not part of the sources. A visibility wrapper is an object whose
  discriminator is \<open>TweetWithVisibilityResults\<close> and which holds the real tweet one
  layer inside; a tweet is an object that is not such a wrapper.
\<close>

definition is_Tweet :: "jsval \<Rightarrow> bool" where
  "is_Tweet x = (is_object x \<and> js_field x ''__typename'' \<noteq> JStr ''TweetWithVisibilityResults'')"

definition is_TweetWithVisibilityResults :: "jsval \<Rightarrow> bool" where
  "is_TweetWithVisibilityResults x =
     (is_object x \<and> js_field x ''__typename'' = JStr ''TweetWithVisibilityResults'' \<and>
      is_Tweet (js_field x ''tweet''))"

text \<open>An entry narrows to an item entry when its content's tag says so.\<close>

definition is_item_entry :: "jsval \<Rightarrow> bool" where
  "is_item_entry e = (js_path e [''content'', ''entryType''] = JStr ''TimelineTimelineItem'')"

text \<open>The prefixes of \<open>core.user_results.result.legacy.screen_name\<close> at which a read
  is made: the tweet itself and the four objects below it.\<close>

definition screen_name_path_broken :: "jsval \<Rightarrow> bool" where
  "screen_name_path_broken tweet =
     (nullish tweet \<or> nullish (js_path tweet [''core'']) \<or>
      nullish (js_path tweet [''core'', ''user_results'']) \<or>
      nullish (js_path tweet [''core'', ''user_results'', ''result'']) \<or>
      nullish (js_path tweet [''core'', ''user_results'', ''result'', ''legacy'']))"

text \<open>
  Modelled from the spec: a tweet record has a legacy object with an entities object;
  a media list, where present, is an array; the retweeted-status result, where
  present, is a tweet or a visibility wrapper around one.
\<close>

definition Tweet_record :: "jsval \<Rightarrow> bool" where
  "Tweet_record t =
     (is_Tweet t \<and> is_object (js_field t ''legacy'') \<and>
      is_object (js_path t [''legacy'', ''entities'']) \<and>
      array_or_absent (js_path t [''legacy'', ''entities'', ''media'']) \<and>
      array_or_absent (js_path t [''legacy'', ''extended_entities'', ''media'']))"

definition retweet_target :: "jsval \<Rightarrow> jsval" where
  "retweet_target t = js_path t [''legacy'', ''retweeted_status_result'', ''result'']"

definition unwrapVisibility_spec :: "jsval \<Rightarrow> jsval" where
  "unwrapVisibility_spec x = (if is_TweetWithVisibilityResults x then js_field x ''tweet'' else x)"

definition wf_tweet :: "jsval \<Rightarrow> bool" where
  "wf_tweet t =
     (Tweet_record t \<and>
      (nullish (retweet_target t) \<or>
       ((is_Tweet (retweet_target t) \<or> is_TweetWithVisibilityResults (retweet_target t)) \<and>
        Tweet_record (unwrapVisibility_spec (retweet_target t)))))"

text \<open>\<open>mediaList\<close> as the specification words it: the real tweet is the retweet's
  target when there is one, else the tweet; its extended-entities media list when
  present, else its legacy entities media list, else the empty list.\<close>

definition realTweet_spec :: "jsval \<Rightarrow> jsval" where
  "realTweet_spec t =
     (if nullish (retweet_target t) then t else unwrapVisibility_spec (retweet_target t))"

definition mediaList_spec :: "jsval \<Rightarrow> jsval" where
  "mediaList_spec t =
     (let rt = realTweet_spec t;
          ext = js_path rt [''legacy'', ''extended_entities'', ''media''];
          leg = js_path rt [''legacy'', ''entities'', ''media'']
      in if is_array ext then ext else if is_array leg then leg else JArr [])"

section \<open>Sample data\<close>

text \<open>Small responses and tweets in the shape the platform sends, on which the
  theorems below are instantiated.\<close>

definition sample_tweet_entry :: "string \<Rightarrow> jsval" where
  "sample_tweet_entry n =
     JObj [(''entryId'', JStr (''tweet-'' @ n)),
           (''content'', JObj [(''entryType'', JStr ''TimelineTimelineItem''),
                               (''itemContent'', JObj [(''rest_id'', JStr n)])])]"

definition sample_cursor_entry :: jsval where
  "sample_cursor_entry =
     JObj [(''entryId'', JStr ''cursor-bottom-0''),
           (''content'', JObj [(''entryType'', JStr ''TimelineTimelineCursor'')])]"

definition sample_empty_item_entry :: jsval where
  "sample_empty_item_entry =
     JObj [(''entryId'', JStr ''tweet-0''),
           (''content'', JObj [(''entryType'', JStr ''TimelineTimelineItem'')])]"

definition sample_instructions :: "jsval list" where
  "sample_instructions =
     [JObj [(''type'', JStr ''TimelineClearCache'')],
      JObj [(''type'', JStr ''TimelineAddEntries''),
            (''entries'', JArr [sample_tweet_entry ''1'', sample_cursor_entry,
                                sample_empty_item_entry, sample_tweet_entry ''2''])]]"

definition sample_plain_tweet :: jsval where
  "sample_plain_tweet =
     JObj [(''__typename'', JStr ''Tweet''),
           (''rest_id'', JStr ''20''),
           (''core'', JObj [(''user_results'', JObj [(''result'',
              JObj [(''legacy'', JObj [(''screen_name'', JStr ''jack'')])])])]),
           (''legacy'', JObj [(''full_text'', JStr ''short''),
                              (''entities'', JObj [])])]"

definition sample_wrapped_tweet :: jsval where
  "sample_wrapped_tweet =
     JObj [(''__typename'', JStr ''TweetWithVisibilityResults''),
           (''tweet'', sample_plain_tweet)]"

definition sample_note_tweet :: jsval where
  "sample_note_tweet =
     JObj [(''__typename'', JStr ''Tweet''),
           (''note_tweet'', JObj [(''note_tweet_results'', JObj [(''result'',
              JObj [(''text'', JStr ''much longer text...'')])])]),
           (''legacy'', JObj [(''full_text'', JStr ''short''),
                              (''entities'', JObj [])])]"

definition sample_empty_note_tweet :: jsval where
  "sample_empty_note_tweet =
     JObj [(''__typename'', JStr ''Tweet''),
           (''note_tweet'', JObj [(''note_tweet_results'', JObj [(''result'',
              JObj [(''text'', JStr [])])])]),
           (''legacy'', JObj [(''full_text'', JStr ''short''),
                              (''entities'', JObj [])])]"

definition sample_no_user_tweet :: jsval where
  "sample_no_user_tweet =
     JObj [(''__typename'', JStr ''Tweet''), (''core'', JObj [])]"

definition sample_media_tweet :: jsval where
  "sample_media_tweet =
     JObj [(''__typename'', JStr ''Tweet''),
           (''legacy'', JObj [(''entities'', JObj [(''media'',
              JArr [JObj [(''id_str'', JStr ''1'')], JObj [(''id_str'', JStr ''2'')]])])])]"

definition sample_retweet :: jsval where
  "sample_retweet =
     JObj [(''__typename'', JStr ''Tweet''),
           (''legacy'', JObj [(''entities'', JObj [(''media'', JArr [])]),
                              (''retweeted_status_result'',
                                 JObj [(''result'', sample_media_tweet)])])]"

section \<open>The media operations, in the words of the specification\<close>

subsection \<open>File extensions\<close>

text \<open>The three patterns of \<open>fileExtension\<close>, each tried at the head of a string:
  \<open>format=<ext>\<close>; \<open>.<ext>\<close> ending the string; \<open>.<ext>?\<close> and a non-empty rest that
  runs to the end of the string without a line break.\<close>

definition format_at :: "string \<Rightarrow> string option" where
  "format_at s =
     (if prefix ''format='' s \<and> takeWhile is_word_char (drop (length ''format='') s) \<noteq> []
      then Some (takeWhile is_word_char (drop (length ''format='') s)) else None)"

definition dot_ext_end_at :: "string \<Rightarrow> string option" where
  "dot_ext_end_at s =
     (case s of [] \<Rightarrow> None
      | c # r \<Rightarrow> if c = CHR ''.'' \<and> r \<noteq> [] \<and> list_all is_word_char r then Some r else None)"

definition dot_ext_query_at :: "string \<Rightarrow> string option" where
  "dot_ext_query_at s =
     (case s of [] \<Rightarrow> None
      | c # r \<Rightarrow>
          (case dropWhile is_word_char r of [] \<Rightarrow> None
           | d # q \<Rightarrow>
               if c = CHR ''.'' \<and> takeWhile is_word_char r \<noteq> [] \<and> d = CHR ''?'' \<and>
                  q \<noteq> [] \<and> list_all (\<lambda>x. \<not> is_line_terminator x) q
               then Some (takeWhile is_word_char r) else None))"

text \<open>The leftmost place of a string at which \<open>p\<close> answers.\<close>

fun first_match :: "(string \<Rightarrow> 'a option) \<Rightarrow> string \<Rightarrow> 'a option" where
  "first_match p [] = p []"
| "first_match p (c # cs) = (case p (c # cs) of Some e \<Rightarrow> Some e | None \<Rightarrow> first_match p cs)"

text \<open>\<open>fileExtension\<close> as the specification words it: the three patterns are
  attempted in order over the whole URL, the first attempt that matches decides.\<close>

definition fileExtension_in_order :: "string \<Rightarrow> string" where
  "fileExtension_in_order u =
     (case first_match format_at u of Some e \<Rightarrow> e | None \<Rightarrow>
     (case first_match dot_ext_end_at u of Some e \<Rightarrow> e | None \<Rightarrow>
     (case first_match dot_ext_query_at u of Some e \<Rightarrow> e | None \<Rightarrow> ''jpg'')))"

text \<open>The other reading: the leftmost place of the URL at which any of the three
  patterns matches decides.\<close>

definition ext_at :: "string \<Rightarrow> string option" where
  "ext_at s =
     (case format_at s of Some e \<Rightarrow> Some e | None \<Rightarrow>
     (case dot_ext_end_at s of Some e \<Rightarrow> Some e | None \<Rightarrow> dot_ext_query_at s))"

definition fileExtension_leftmost :: "string \<Rightarrow> string" where
  "fileExtension_leftmost u = (case first_match ext_at u of Some e \<Rightarrow> e | None \<Rightarrow> ''jpg'')"

subsection \<open>Image URLs\<close>

text \<open>The platform's media host, and a body \<open><base>.<ext>\<close> after it: \<open>ext\<close> is the
  run of word characters that ends the body, \<open>base\<close> is not empty and has no line
  break.\<close>

definition media_host_prefix :: "string \<Rightarrow> string option" where
  "media_host_prefix u =
     (if prefix ''https://pbs.twimg.com/media/'' u then Some ''https://pbs.twimg.com/media/''
      else if prefix ''http://pbs.twimg.com/media/'' u then Some ''http://pbs.twimg.com/media/''
      else None)"

definition split_ext :: "string \<Rightarrow> (string \<times> string) option" where
  "split_ext body =
     (let e = rev (takeWhile is_word_char (rev body));
          b = take (length body - length e - 1) body
      in if e \<noteq> [] \<and> b \<noteq> [] \<and> body = b @ CHR ''.'' # e \<and>
            list_all (\<lambda>c. \<not> is_line_terminator c) b
         then Some (b, e) else None)"

definition split_media_url :: "string \<Rightarrow> (string \<times> string) option" where
  "split_media_url u =
     (case media_host_prefix u of
        None \<Rightarrow> None
      | Some h \<Rightarrow>
          (case split_ext (drop (length h) u) of
             None \<Rightarrow> None
           | Some (b, e) \<Rightarrow> Some (h @ b, e)))"

text \<open>\<open>formatImageUrl\<close> as the specification words it.\<close>

definition formatImageUrl_spec :: "string \<Rightarrow> image_size option \<Rightarrow> string" where
  "formatImageUrl_spec u size_arg =
     (let sz = image_size_str (case size_arg of None \<Rightarrow> medium | Some n \<Rightarrow> n) in
      case split_media_url u of
        Some (base, ext) \<Rightarrow> base @ ''?format='' @ ext @ ''&name='' @ sz
      | None \<Rightarrow> u @ ''?name='' @ sz)"

subsection \<open>Bitrates\<close>

text \<open>A missing bitrate counts as 0.\<close>

definition effective_bitrate :: "Variant \<Rightarrow> int" where
  "effective_bitrate v = (case bitrate v of None \<Rightarrow> 0 | Some b \<Rightarrow> b)"

text \<open>\<open>u\<close> is the URL of a variant of greatest bitrate that no earlier variant
  equals.\<close>

definition selects_greatest_bitrate :: "Variant list \<Rightarrow> string \<Rightarrow> bool" where
  "selects_greatest_bitrate vs u =
     list_ex (\<lambda>i. u = url (vs ! i) \<and>
                   list_all (\<lambda>v. effective_bitrate v \<le> effective_bitrate (vs ! i)) vs \<and>
                   list_all (\<lambda>v. effective_bitrate v < effective_bitrate (vs ! i)) (take i vs))
       [0..<length vs]"

text \<open>\<open>originalUrl\<close> on a video or a gif, as the specification words it.\<close>

definition originalUrl_as_specified :: "Media \<Rightarrow> bool" where
  "originalUrl_as_specified media =
     (if media_variants media = [] then getMediaOriginalUrl media = media_url_https media
      else selects_greatest_bitrate (media_variants media) (getMediaOriginalUrl media))"

subsection \<open>Notions for the proofs about the matcher\<close>

text \<open>The captures of the first state of a list, the extension among them, and the
  states a greedy \<open>+\<close> leaves.\<close>

definition first_caps :: "mstate list \<Rightarrow> captures option" where
  "first_caps rs = (case rs of [] \<Rightarrow> None | (_, _, g) # _ \<Rightarrow> Some g)"

definition ext_of :: "captures \<Rightarrow> string option" where
  "ext_of m =
     (case group m 1 of Some e \<Rightarrow> Some e | None \<Rightarrow>
     (case group m 2 of Some e \<Rightarrow> Some e | None \<Rightarrow> group m 3))"

definition ext_of_match :: "captures option \<Rightarrow> string option" where
  "ext_of_match m = (case m of None \<Rightarrow> None | Some g \<Rightarrow> ext_of g)"

definition plus_states :: "cclass \<Rightarrow> nat \<Rightarrow> string \<Rightarrow> captures \<Rightarrow> mstate list" where
  "plus_states c i t g =
     map (\<lambda>k. (i + k, drop k t, g)) (rev [1..<Suc (length (takeWhile (in_class c) t))])"

section \<open>Sample media\<close>

definition sample_video :: Media where
  "sample_video =
     \<lparr>type = video, media_url_https = ''https://pbs.twimg.com/ext_tw_video_thumb/1/pu/img/x.jpg'',
      video_info = Some \<lparr>variants = Some
        [\<lparr>bitrate = Some 800, url = ''a''\<rparr>,
         \<lparr>bitrate = Some 2000, url = ''b''\<rparr>,
         \<lparr>bitrate = Some 1200, url = ''c''\<rparr>]\<rparr>\<rparr>"

definition sample_negative_video :: Media where
  "sample_negative_video =
     \<lparr>type = video, media_url_https = ''https://pbs.twimg.com/ext_tw_video_thumb/1/pu/img/x.jpg'',
      video_info = Some \<lparr>variants = Some
        [\<lparr>bitrate = Some (- 5), url = ''a''\<rparr>,
         \<lparr>bitrate = None, url = ''b''\<rparr>]\<rparr>\<rparr>"

section \<open>Facts about the operators\<close>

lemma bindR_simps [simp]: "bindR (Inl e) f = Inl e" "bindR (Inr v) f = f v"
  by (simp_all add: bindR_def)

lemma js_field_nullish [simp]: "nullish v \<Longrightarrow> js_field v k = JUndefined"
  by (cases v) simp_all

lemma is_object_not_nullish [simp]: "is_object v \<Longrightarrow> \<not> nullish v"
  by (cases v) simp_all

lemma is_array_not_nullish [simp]: "is_array v \<Longrightarrow> \<not> nullish v"
  by (cases v) simp_all

lemma is_array_truthy [simp]: "is_array v \<Longrightarrow> truthy v"
  by (cases v) simp_all

lemma is_object_truthy [simp]: "is_object v \<Longrightarrow> truthy v"
  by (cases v) simp_all

lemma nullish_not_truthy [simp]: "nullish v \<Longrightarrow> \<not> truthy v"
  by (cases v) simp_all

lemma get_prop_object [simp]: "is_object v \<Longrightarrow> get_prop v k = Inr (js_field v k)"
  by (simp add: get_prop_def)

lemma js_field_defined: "js_field v k \<noteq> JUndefined \<Longrightarrow> is_object v"
  by (cases v) simp_all

section \<open>Response decoder: order, filtering and the missing instruction\<close>

lemma collect_entries_wf:
  assumes "\<forall>e\<in>set es. is_object e \<and> is_object (js_field e ''content'')"
    and "\<forall>e\<in>set es. is_item_entry e \<longrightarrow> ex e = Inr (f e)"
  shows "collect_entries ex es acc = Inr (acc @ filter truthy (map f (filter is_item_entry es)))"
  using assms
proof (induction es arbitrary: acc)
  case Nil
  then show ?case by simp
next
  case (Cons e es)
  then have "isTimelineEntryItem e = Inr (is_item_entry e)"
    by (simp add: isTimelineEntryItem_def is_item_entry_def)
  with Cons show ?case by simp
qed

lemma find_TimelineAddEntries_objects:
  assumes "\<forall>i\<in>set is. is_object i"
  shows "find_TimelineAddEntries is =
    Inr (case List.find (\<lambda>i. js_field i ''type'' = JStr ''TimelineAddEntries'') is of
           None \<Rightarrow> JUndefined | Some i \<Rightarrow> i)"
  using assms by (induction "is") auto

lemma find_is_object: "List.find P xs = Some x \<Longrightarrow> \<forall>i\<in>set xs. is_object i \<Longrightarrow> is_object x"
  by (auto simp: find_Some_iff)

lemma find_TimelineAddEntries_none:
  assumes "\<forall>i\<in>set is. js_field i ''type'' \<noteq> JStr ''TimelineAddEntries''"
  shows "find_TimelineAddEntries is = Inr JUndefined \<or> find_TimelineAddEntries is = Inl TypeError"
  using assms by (induction "is") (auto simp: get_prop_def)

text \<open>
  C1. A well-formed response: the body parses, the instruction list is an array of
  objects, the first instruction tagged \<open>TimelineAddEntries\<close> carries an array of
  entries, each an object with a content object, and the entry extractor returns
  (the value \<open>f e\<close>) on every item entry. Then \<open>extractDataFromResponse\<close> returns, and
  its output is the list of the values \<open>f e\<close> that are not absent, for the item
  entries \<open>e\<close> in the order of the entry list: a subsequence of the extractor's
  values along the entry list, no longer than the number of item entries.
\<close>

theorem extractDataFromResponse_order:
  assumes "JSON_parse (responseText response) = Inr json"
    and "extractInstructionsFromJson json = Inr (JArr instructions)"
    and "\<forall>i\<in>set instructions. is_object i"
    and "List.find (\<lambda>i. js_field i ''type'' = JStr ''TimelineAddEntries'') instructions = Some add"
    and "js_field add ''entries'' = JArr entries"
    and "\<forall>e\<in>set entries. is_object e \<and> is_object (js_field e ''content'')"
    and "\<forall>e\<in>set entries. is_item_entry e \<longrightarrow> extractDataFromTimelineEntry e = Inr (f e)"
  shows "extractDataFromResponse JSON_parse response extractInstructionsFromJson
             extractDataFromTimelineEntry
           = Inr (filter truthy (map f (filter is_item_entry entries))) \<and>
         subseq (filter truthy (map f (filter is_item_entry entries))) (map f entries) \<and>
         length (filter truthy (map f (filter is_item_entry entries)))
           \<le> length (filter is_item_entry entries)"
proof -
  let ?out = "filter truthy (map f (filter is_item_entry entries))"
  have "is_object add" using assms(3,4) find_is_object by blast
  then have 1: "extractDataFromResponse JSON_parse response extractInstructionsFromJson
      extractDataFromTimelineEntry = Inr ?out"
    using assms(1-5) collect_entries_wf [OF assms(6,7), of "[]"]
    by (simp add: extractDataFromResponse_def find_TimelineAddEntries_objects)
  have "subseq (map f (filter is_item_entry entries)) (map f entries)"
    by (simp add: subseq_map)
  then have 2: "subseq ?out (map f entries)"
    using subseq_filter_left subseq_order.order_trans by blast
  have 3: "length ?out \<le> length (filter is_item_entry entries)"
    using length_filter_le [of truthy "map f (filter is_item_entry entries)"] by simp
  from 1 2 3 show ?thesis by blast
qed

theorem extractDataFromResponse_order_witness:
  "extractDataFromResponse (\<lambda>text. Inr (JObj [(''instructions'', JArr sample_instructions)]))
       \<lparr>responseText = ''{}''\<rparr>
       (\<lambda>json. Inr (js_field json ''instructions''))
       (\<lambda>e. Inr (js_path e [''content'', ''itemContent'']))
     = Inr [JObj [(''rest_id'', JStr ''1'')], JObj [(''rest_id'', JStr ''2'')]]"
  using extractDataFromResponse_order
    [of "\<lambda>text. Inr (JObj [(''instructions'', JArr sample_instructions)])"
        "\<lparr>responseText = ''{}''\<rparr>"
        "JObj [(''instructions'', JArr sample_instructions)]"
        "\<lambda>json. Inr (js_field json ''instructions'')"
        sample_instructions
        "sample_instructions ! 1"
        "[sample_tweet_entry ''1'', sample_cursor_entry, sample_empty_item_entry,
          sample_tweet_entry ''2'']"
        "\<lambda>e. Inr (js_path e [''content'', ''itemContent''])"
        "\<lambda>e. js_path e [''content'', ''itemContent'']"]
  by (simp add: sample_instructions_def sample_tweet_entry_def sample_cursor_entry_def
      sample_empty_item_entry_def is_item_entry_def)

text \<open>
  C2. When the body parses and the instruction list is an array none of whose
  elements is tagged \<open>TimelineAddEntries\<close>, \<open>extractDataFromResponse\<close> raises a
  TypeError, whatever the entry extractor is: it returns no list, empty or partial.
  When the elements of the list are objects the search itself succeeds, with
  \<open>undefined\<close>, and it is the read of \<open>entries\<close> from it that raises.
\<close>

theorem extractDataFromResponse_no_AddEntries:
  assumes "JSON_parse (responseText response) = Inr json"
    and "extractInstructionsFromJson json = Inr (JArr instructions)"
    and "\<forall>i\<in>set instructions. js_field i ''type'' \<noteq> JStr ''TimelineAddEntries''"
  shows "extractDataFromResponse JSON_parse response extractInstructionsFromJson
             extractDataFromTimelineEntry
           = Inl TypeError \<and>
         ((\<forall>i\<in>set instructions. is_object i) \<longrightarrow>
            instructions_find (JArr instructions) = Inr JUndefined \<and>
            get_prop JUndefined ''entries'' = Inl TypeError)"
proof -
  have 1: "extractDataFromResponse JSON_parse response extractInstructionsFromJson
             extractDataFromTimelineEntry = Inl TypeError"
    using assms find_TimelineAddEntries_none [OF assms(3)]
    by (auto simp: extractDataFromResponse_def get_prop_def)
  have 2: "(\<forall>i\<in>set instructions. is_object i) \<longrightarrow>
            instructions_find (JArr instructions) = Inr JUndefined"
  proof
    assume o: "\<forall>i\<in>set instructions. is_object i"
    have "List.find (\<lambda>i. js_field i ''type'' = JStr ''TimelineAddEntries'') instructions = None"
      using assms(3) by (simp add: find_None_iff)
    then show "instructions_find (JArr instructions) = Inr JUndefined"
      by (simp add: find_TimelineAddEntries_objects [OF o])
  qed
  have 3: "get_prop JUndefined ''entries'' = Inl TypeError"
    by (simp add: get_prop_def)
  from 1 2 3 show ?thesis by blast
qed

theorem extractDataFromResponse_no_AddEntries_witness:
  "extractDataFromResponse
       (\<lambda>text. Inr (JObj [(''instructions'', JArr [JObj [(''type'', JStr ''TimelineClearCache'')]])]))
       \<lparr>responseText = ''{}''\<rparr>
       (\<lambda>json. Inr (js_field json ''instructions''))
       (\<lambda>e. Inr e)
     = Inl TypeError"
  using extractDataFromResponse_no_AddEntries
    [of "\<lambda>text. Inr (JObj [(''instructions'', JArr [JObj [(''type'', JStr ''TimelineClearCache'')]])])"
        "\<lparr>responseText = ''{}''\<rparr>"
        "JObj [(''instructions'', JArr [JObj [(''type'', JStr ''TimelineClearCache'')]])]"
        "\<lambda>json. Inr (js_field json ''instructions'')"
        "[JObj [(''type'', JStr ''TimelineClearCache'')]]"
        "\<lambda>e. Inr e"]
  by simp

section \<open>Tweet normalizer: unwrapping, text, media and screen name\<close>

lemma extractTweetWithVisibility_payload:
  "is_Tweet x \<or> is_TweetWithVisibilityResults x \<Longrightarrow>
   extractTweetWithVisibility x = Inr (unwrapVisibility_spec x)"
  by (auto simp: is_Tweet_def is_TweetWithVisibilityResults_def unwrapVisibility_spec_def
      extractTweetWithVisibility_def opt_prop_def)

lemma extractRetweetedTweet_wf:
  assumes "wf_tweet t"
  shows "extractRetweetedTweet t =
     Inr (if nullish (retweet_target t) then JNull else unwrapVisibility_spec (retweet_target t))"
proof -
  from assms have l: "is_object t" "is_object (js_field t ''legacy'')"
    by (simp_all add: wf_tweet_def Tweet_record_def is_Tweet_def)
  show ?thesis
  proof (cases "nullish (retweet_target t)")
    case True
    then have "\<not> truthy (js_field (js_field (js_field t ''legacy'') ''retweeted_status_result'') ''result'')"
      by (simp add: retweet_target_def)
    with l show ?thesis
      using True by (simp add: extractRetweetedTweet_def opt_prop_def get_prop_def)
  next
    case False
    with assms have p: "is_Tweet (retweet_target t) \<or> is_TweetWithVisibilityResults (retweet_target t)"
      by (simp add: wf_tweet_def)
    then have o: "is_object (retweet_target t)"
      by (auto simp: is_Tweet_def is_TweetWithVisibilityResults_def)
    then have "is_object (js_field (js_field t ''legacy'') ''retweeted_status_result'')"
      by (intro js_field_defined [where k = "''result''"]) (auto simp: retweet_target_def)
    with l o False show ?thesis
      using extractTweetWithVisibility_payload [OF p]
      by (simp add: extractRetweetedTweet_def opt_prop_def retweet_target_def)
  qed
qed

lemma Tweet_record_media:
  assumes "Tweet_record rt"
  shows "bindR (get_prop rt ''legacy'') (\<lambda>legacy.
     bindR (get_prop legacy ''extended_entities'') (\<lambda>extended_entities.
     bindR (opt_prop extended_entities ''media'') (\<lambda>media.
     if truthy media then Inr media
     else
       bindR (get_prop legacy ''entities'') (\<lambda>entities.
       bindR (get_prop entities ''media'') (\<lambda>media'.
       Inr (if nullish media' then JArr [] else media')))))) =
    Inr (let ext = js_path rt [''legacy'', ''extended_entities'', ''media''];
          leg = js_path rt [''legacy'', ''entities'', ''media'']
      in if is_array ext then ext else if is_array leg then leg else JArr [])"
proof -
  let ?l = "js_field rt ''legacy''"
  let ?ext = "js_field (js_field ?l ''extended_entities'') ''media''"
  let ?leg = "js_field (js_field ?l ''entities'') ''media''"
  from assms have o: "is_object rt" "is_object ?l" "is_object (js_field ?l ''entities'')"
    and a: "is_array ?ext \<or> nullish ?ext" "is_array ?leg \<or> nullish ?leg"
    by (simp_all add: Tweet_record_def is_Tweet_def array_or_absent_def)
  have e: "opt_prop (js_field ?l ''extended_entities'') ''media'' = Inr ?ext"
    by (simp add: opt_prop_def get_prop_def)
  from a(1) show ?thesis
  proof
    assume "is_array ?ext"
    with o e show ?thesis by (simp add: Let_def)
  next
    assume n: "nullish ?ext"
    then have "\<not> is_array ?ext" by (cases ?ext) simp_all
    moreover have "nullish ?leg \<Longrightarrow> \<not> is_array ?leg" by (cases ?leg) simp_all
    ultimately show ?thesis using o e n a(2) by (auto simp: Let_def)
  qed
qed

text \<open>
  C5. On a well-formed tweet record \<open>extractTweetMedia\<close> returns, and its value is the
  media list of the specification: of the real tweet (the target of the retweet,
  unwrapped from its visibility layer, when the retweeted-status reference has a
  result; the tweet itself otherwise), the extended-entities media list when
  present, else the legacy entities media list, else the empty list.
\<close>

theorem extractTweetMedia_mediaList:
  assumes "wf_tweet t"
  shows "extractTweetMedia t = Inr (mediaList_spec t)"
proof (cases "nullish (retweet_target t)")
  case True
  from assms have "Tweet_record t" by (simp add: wf_tweet_def)
  from Tweet_record_media [OF this] True show ?thesis
    by (simp add: extractTweetMedia_def extractRetweetedTweet_wf [OF assms]
        mediaList_spec_def realTweet_spec_def Let_def)
next
  case False
  with assms have r: "Tweet_record (unwrapVisibility_spec (retweet_target t))"
    by (simp add: wf_tweet_def)
  then have "\<not> nullish (unwrapVisibility_spec (retweet_target t))"
    by (simp add: Tweet_record_def is_Tweet_def)
  with Tweet_record_media [OF r] False show ?thesis
    by (simp add: extractTweetMedia_def extractRetweetedTweet_wf [OF assms]
        mediaList_spec_def realTweet_spec_def Let_def)
qed

lemma wf_sample_retweet: "wf_tweet sample_retweet"
  by (simp add: wf_tweet_def Tweet_record_def is_Tweet_def is_TweetWithVisibilityResults_def
      array_or_absent_def retweet_target_def unwrapVisibility_spec_def
      sample_retweet_def sample_media_tweet_def)

theorem extractTweetMedia_mediaList_witness:
  "extractTweetMedia sample_retweet =
     Inr (JArr [JObj [(''id_str'', JStr ''1'')], JObj [(''id_str'', JStr ''2'')]])"
  using extractTweetMedia_mediaList [OF wf_sample_retweet]
  by (simp add: mediaList_spec_def realTweet_spec_def retweet_target_def
      unwrapVisibility_spec_def is_TweetWithVisibilityResults_def
      sample_retweet_def sample_media_tweet_def)

text \<open>
  C6. When the note extension is there with a text, whatever the text and whatever
  the legacy fields, \<open>extractTweetFullText\<close> returns the note's text; when the tweet
  has no note extension it returns the legacy \<open>full_text\<close> field.
\<close>

theorem extractTweetFullText_precedence:
  "(js_path tweet [''note_tweet'', ''note_tweet_results'', ''result'', ''text''] = JStr txt \<longrightarrow>
      extractTweetFullText tweet = Inr (JStr txt)) \<and>
   (is_object tweet \<and> nullish (js_field tweet ''note_tweet'') \<and>
    is_object (js_field tweet ''legacy'') \<longrightarrow>
      extractTweetFullText tweet = Inr (js_path tweet [''legacy'', ''full_text'']))"
proof (intro conjI impI)
  assume a: "js_path tweet [''note_tweet'', ''note_tweet_results'', ''result'', ''text''] = JStr txt"
  then have 1: "is_object (js_path tweet [''note_tweet'', ''note_tweet_results'', ''result''])"
    by (intro js_field_defined [where k = "''text''"]) simp
  then have 2: "is_object (js_path tweet [''note_tweet'', ''note_tweet_results''])"
    by (intro js_field_defined [where k = "''result''"]) auto
  then have 3: "is_object (js_path tweet [''note_tweet''])"
    by (intro js_field_defined [where k = "''note_tweet_results''"]) auto
  then have 4: "is_object tweet"
    by (intro js_field_defined [where k = "''note_tweet''"]) auto
  from a 1 2 3 4 show "extractTweetFullText tweet = Inr (JStr txt)"
    by (simp add: extractTweetFullText_def)
next
  assume "is_object tweet \<and> nullish (js_field tweet ''note_tweet'') \<and>
    is_object (js_field tweet ''legacy'')"
  then show "extractTweetFullText tweet = Inr (js_path tweet [''legacy'', ''full_text''])"
    by (simp add: extractTweetFullText_def)
qed

theorem extractTweetFullText_precedence_witness:
  "extractTweetFullText sample_note_tweet = Inr (JStr ''much longer text...'') \<and>
   extractTweetFullText sample_empty_note_tweet = Inr (JStr []) \<and>
   extractTweetFullText sample_plain_tweet = Inr (JStr ''short'')"
  using extractTweetFullText_precedence [of sample_note_tweet "''much longer text...''"]
    extractTweetFullText_precedence [of sample_empty_note_tweet "[]"]
    extractTweetFullText_precedence [of sample_plain_tweet]
  by (simp add: sample_note_tweet_def sample_empty_note_tweet_def sample_plain_tweet_def)

text \<open>
  C7. On a tweet, and on a visibility wrapper around a tweet,
  \<open>extractTweetWithVisibility\<close> applied to its own result gives that result again.
\<close>

theorem extractTweetWithVisibility_idempotent:
  assumes "is_Tweet x \<or> is_TweetWithVisibilityResults x"
  shows "bindR (extractTweetWithVisibility x) extractTweetWithVisibility
           = extractTweetWithVisibility x"
  using assms
  by (auto simp: is_Tweet_def is_TweetWithVisibilityResults_def extractTweetWithVisibility_def
      opt_prop_def)

theorem extractTweetWithVisibility_idempotent_witness:
  "bindR (extractTweetWithVisibility sample_wrapped_tweet) extractTweetWithVisibility
     = Inr sample_plain_tweet \<and>
   extractTweetWithVisibility sample_wrapped_tweet = Inr sample_plain_tweet"
  using extractTweetWithVisibility_idempotent [of sample_wrapped_tweet]
  by (simp add: is_Tweet_def is_TweetWithVisibilityResults_def extractTweetWithVisibility_def
      opt_prop_def sample_wrapped_tweet_def sample_plain_tweet_def)

text \<open>
  C8. When a read along \<open>core.user_results.result.legacy.screen_name\<close> meets \<open>null\<close> or
  \<open>undefined\<close> before the last name, \<open>extractTweetUserScreenName\<close> returns the string
  \<open>READ_ERROR\<close> and the logger has received one more event, the one of this failure;
  otherwise it returns what is at the end of the path and logs nothing. It returns in
  both cases.
\<close>

theorem extractTweetUserScreenName_sentinel:
  "(screen_name_path_broken tweet \<longrightarrow>
      extractTweetUserScreenName tweet s =
        (JStr ''READ_ERROR'',
         s\<lparr>console := console s @ [tweet],
           logger := logger s @ [(''Failed to extract tweet user screen name'', TypeError, tweet)]\<rparr>)) \<and>
   (\<not> screen_name_path_broken tweet \<longrightarrow>
      extractTweetUserScreenName tweet s =
        (js_path tweet [''core'', ''user_results'', ''result'', ''legacy'', ''screen_name''], s))"
  by (auto simp: screen_name_path_broken_def extractTweetUserScreenName_def read_screen_name_def
      get_prop_def console_log_def logger_error_def)

theorem extractTweetUserScreenName_sentinel_witness:
  "extractTweetUserScreenName sample_no_user_tweet \<lparr>console = [], logger = []\<rparr> =
     (JStr ''READ_ERROR'',
      \<lparr>console = [sample_no_user_tweet],
       logger = [(''Failed to extract tweet user screen name'', TypeError, sample_no_user_tweet)]\<rparr>) \<and>
   extractTweetUserScreenName sample_plain_tweet \<lparr>console = [], logger = []\<rparr> =
     (JStr ''jack'', \<lparr>console = [], logger = []\<rparr>)"
  using extractTweetUserScreenName_sentinel [of sample_no_user_tweet "\<lparr>console = [], logger = []\<rparr>"]
    extractTweetUserScreenName_sentinel [of sample_plain_tweet "\<lparr>console = [], logger = []\<rparr>"]
  by (simp add: screen_name_path_broken_def sample_no_user_tweet_def sample_plain_tweet_def)

text \<open>
  C10. \<open>extractTweetWithVisibility\<close> never raises. It returns its input as it is when
  the input is \<open>null\<close> or \<open>undefined\<close> and, more generally, whenever the input's
  \<open>__typename\<close> is not \<open>TweetWithVisibilityResults\<close>; on an input with that
  discriminator it returns the input's \<open>tweet\<close> property.
\<close>

theorem extractTweetWithVisibility_total:
  "(nullish x \<longrightarrow> extractTweetWithVisibility x = Inr x) \<and>
   (js_field x ''__typename'' \<noteq> JStr ''TweetWithVisibilityResults'' \<longrightarrow>
      extractTweetWithVisibility x = Inr x) \<and>
   (js_field x ''__typename'' = JStr ''TweetWithVisibilityResults'' \<longrightarrow>
      extractTweetWithVisibility x = Inr (js_field x ''tweet''))"
  by (cases "nullish x") (auto simp: extractTweetWithVisibility_def opt_prop_def get_prop_def)

theorem extractTweetWithVisibility_total_witness:
  "extractTweetWithVisibility JNull = Inr JNull \<and>
   extractTweetWithVisibility JUndefined = Inr JUndefined \<and>
   extractTweetWithVisibility sample_plain_tweet = Inr sample_plain_tweet \<and>
   extractTweetWithVisibility sample_wrapped_tweet = Inr sample_plain_tweet"
  using extractTweetWithVisibility_total [of JNull] extractTweetWithVisibility_total [of JUndefined]
    extractTweetWithVisibility_total [of sample_plain_tweet]
    extractTweetWithVisibility_total [of sample_wrapped_tweet]
  by (simp add: sample_wrapped_tweet_def sample_plain_tweet_def)

section \<open>The matcher on the patterns of the source\<close>

declare rmatch.simps [simp del]

lemma rmatch_lit:
  "rmatch (lit w) (i, s, g) = (if prefix w s then [(i + length w, drop (length w) s, g)] else [])"
proof (induction w arbitrary: i s)
  case Nil
  then show ?case by (simp add: rmatch.simps)
next
  case (Cons c w)
  show ?case
  proof (cases s)
    case Nil
    then show ?thesis by (simp add: rmatch.simps)
  next
    case (Cons x xs)
    then show ?thesis using Cons.IH [of "Suc i" xs] by (auto simp: rmatch.simps)
  qed
qed

declare lit.simps [simp del]

lemma rmatch_Seq_lit:
  "rmatch (RSeq (lit w) b) (i, s, g) =
     (if prefix w s then rmatch b (i + length w, drop (length w) s, g) else [])"
  by (simp add: rmatch.simps(3) rmatch_lit)

lemma rmatch_Seq_Atom:
  "rmatch (RSeq (RAtom c) b) (i, s, g) =
     (case s of [] \<Rightarrow> [] | x # xs \<Rightarrow> if in_class c x then rmatch b (Suc i, xs, g) else [])"
  by (cases s) (simp_all add: rmatch.simps)

lemma concat_map_all_Nil: "(\<And>x. x \<in> set xs \<Longrightarrow> f x = []) \<Longrightarrow> concat (map f xs) = []"
  by (induction xs) auto

lemma greedy_last:
  assumes "\<And>k. 1 \<le> k \<Longrightarrow> k < m \<Longrightarrow> F k = []"
  shows "concat (map F (rev [1..<Suc m])) = (if m = 0 then [] else F m)"
proof (cases m)
  case 0
  then show ?thesis by simp
next
  case (Suc n)
  have "concat (map F (rev [1..<Suc n])) = []"
    using assms Suc by (intro concat_map_all_Nil) auto
  with Suc show ?thesis by simp
qed

lemma rmatch_Seq_Plus:
  "rmatch (RSeq (RPlus c) b) (i, s, g) =
     concat (map (\<lambda>k. rmatch b (i + k, drop k s, g))
       (rev [1..<Suc (length (takeWhile (in_class c) s))]))"
  by (simp add: rmatch.simps comp_def)

lemma rmatch_Seq_Group_Plus:
  "rmatch (RSeq (RGroup n (RPlus c)) b) (i, s, g) =
     concat (map (\<lambda>k. rmatch b (i + k, drop k s, (n, take k s) # g))
       (rev [1..<Suc (length (takeWhile (in_class c) s))]))"
  by (simp add: rmatch.simps comp_def)

lemma drop_inside_takeWhile:
  assumes "k < length (takeWhile P s)"
  shows "\<exists>x r. drop k s = x # r \<and> P x"
proof -
  from assms have k: "k < length s"
    using length_takeWhile_le [of P s] by simp
  have "takeWhile P s ! k \<in> set (takeWhile P s)" using assms by simp
  then have "P (takeWhile P s ! k)" by (rule set_takeWhileD [THEN conjunct2])
  then have "P (s ! k)" using assms by (simp add: takeWhile_nth)
  moreover have "drop k s = s ! k # drop (Suc k) s" using k by (simp add: Cons_nth_drop_Suc)
  ultimately show ?thesis by blast
qed

lemma in_class_fun [simp]:
  "in_class CWord = is_word_char"
  "in_class CAny = (\<lambda>c. \<not> is_line_terminator c)"
  by (rule ext, simp)+

lemma rmatch_Seq_Group_Plus_last:
  assumes "\<And>k. 1 \<le> k \<Longrightarrow> k < length (takeWhile (in_class c) s) \<Longrightarrow>
             rmatch b (i + k, drop k s, (n, take k s) # g) = []"
  shows "rmatch (RSeq (RGroup n (RPlus c)) b) (i, s, g) =
     (if takeWhile (in_class c) s = [] then []
      else rmatch b (i + length (takeWhile (in_class c) s), dropWhile (in_class c) s,
                     (n, takeWhile (in_class c) s) # g))"
proof -
  let ?m = "length (takeWhile (in_class c) s)"
  let ?F = "\<lambda>k. rmatch b (i + k, drop k s, (n, take k s) # g)"
  have "rmatch (RSeq (RGroup n (RPlus c)) b) (i, s, g) = concat (map ?F (rev [1..<Suc ?m]))"
    by (rule rmatch_Seq_Group_Plus)
  also have "\<dots> = (if ?m = 0 then [] else ?F ?m)"
    using assms by (rule greedy_last)
  also have "\<dots> = (if takeWhile (in_class c) s = [] then []
      else rmatch b (i + ?m, dropWhile (in_class c) s, (n, takeWhile (in_class c) s) # g))"
    by (simp add: dropWhile_eq_drop [symmetric] takeWhile_eq_take [symmetric])
  finally show ?thesis .
qed

lemma rmatch_Seq_Plus_last:
  assumes "\<And>k. 1 \<le> k \<Longrightarrow> k < length (takeWhile (in_class c) s) \<Longrightarrow>
             rmatch b (i + k, drop k s, g) = []"
  shows "rmatch (RSeq (RPlus c) b) (i, s, g) =
     (if takeWhile (in_class c) s = [] then []
      else rmatch b (i + length (takeWhile (in_class c) s), dropWhile (in_class c) s, g))"
proof -
  let ?m = "length (takeWhile (in_class c) s)"
  let ?F = "\<lambda>k. rmatch b (i + k, drop k s, g)"
  have "rmatch (RSeq (RPlus c) b) (i, s, g) = concat (map ?F (rev [1..<Suc ?m]))"
    by (rule rmatch_Seq_Plus)
  also have "\<dots> = (if ?m = 0 then [] else ?F ?m)"
    using assms by (rule greedy_last)
  also have "\<dots> = (if takeWhile (in_class c) s = [] then []
      else rmatch b (i + ?m, dropWhile (in_class c) s, g))"
    by (simp add: dropWhile_eq_drop [symmetric])
  finally show ?thesis .
qed

lemma takeWhile_all_iff: "(takeWhile P s \<noteq> [] \<and> dropWhile P s = []) = (s \<noteq> [] \<and> list_all P s)"
  by (cases s) (auto simp: list_all_iff)

lemma rmatch_word_Eol:
  "rmatch (RSeq (RGroup n (RPlus CWord)) REol) (i, s, g) =
     (if s \<noteq> [] \<and> list_all is_word_char s then [(i + length s, [], (n, s) # g)] else [])"
proof -
  have "\<And>k. 1 \<le> k \<Longrightarrow> k < length (takeWhile (in_class CWord) s) \<Longrightarrow>
      rmatch REol (i + k, drop k s, (n, take k s) # g) = []"
    using drop_inside_takeWhile [of _ "in_class CWord" s] by (fastforce simp: rmatch.simps)
  then have "rmatch (RSeq (RGroup n (RPlus CWord)) REol) (i, s, g) =
     (if takeWhile is_word_char s = [] then []
      else rmatch REol (i + length (takeWhile is_word_char s), dropWhile is_word_char s,
                     (n, takeWhile is_word_char s) # g))"
    using rmatch_Seq_Group_Plus_last [of CWord s REol i n g] by simp
  also have "\<dots> = (if s \<noteq> [] \<and> list_all is_word_char s then [(i + length s, [], (n, s) # g)] else [])"
  proof (cases "s \<noteq> [] \<and> list_all is_word_char s")
    case True
    then have tw: "takeWhile is_word_char s = s" "dropWhile is_word_char s = []"
      by (simp_all add: list_all_iff)
    show ?thesis unfolding tw using True by (simp add: rmatch.simps)
  next
    case False
    then have "\<not> (takeWhile is_word_char s \<noteq> [] \<and> dropWhile is_word_char s = [])"
      using takeWhile_all_iff [of is_word_char s] by blast
    with False show ?thesis by (auto simp: rmatch.simps)
  qed
  finally show ?thesis .
qed

lemma rmatch_any_Eol:
  "rmatch (RSeq (RPlus CAny) REol) (i, s, g) =
     (if s \<noteq> [] \<and> list_all (\<lambda>c. \<not> is_line_terminator c) s then [(i + length s, [], g)] else [])"
proof -
  let ?P = "\<lambda>c. \<not> is_line_terminator c"
  have "\<And>k. 1 \<le> k \<Longrightarrow> k < length (takeWhile (in_class CAny) s) \<Longrightarrow>
      rmatch REol (i + k, drop k s, g) = []"
    using drop_inside_takeWhile [of _ "in_class CAny" s] by (fastforce simp: rmatch.simps)
  then have "rmatch (RSeq (RPlus CAny) REol) (i, s, g) =
     (if takeWhile ?P s = [] then []
      else rmatch REol (i + length (takeWhile ?P s), dropWhile ?P s, g))"
    using rmatch_Seq_Plus_last [of CAny s REol i g] by simp
  also have "\<dots> = (if s \<noteq> [] \<and> list_all ?P s then [(i + length s, [], g)] else [])"
  proof (cases "s \<noteq> [] \<and> list_all ?P s")
    case True
    then have tw: "takeWhile ?P s = s" "dropWhile ?P s = []"
      by (simp_all add: list_all_iff)
    show ?thesis unfolding tw using True by (simp add: rmatch.simps)
  next
    case False
    then have "\<not> (takeWhile ?P s \<noteq> [] \<and> dropWhile ?P s = [])"
      using takeWhile_all_iff [of ?P s] by blast
    with False show ?thesis by (auto simp: rmatch.simps)
  qed
  finally show ?thesis .
qed

lemma not_word_question [simp]: "\<not> is_word_char CHR ''?''" "\<not> is_word_char CHR ''.''"
  by (simp_all add: is_word_char_def)

lemma rmatch_word_query:
  "rmatch (RSeq (RGroup n (RPlus CWord)) (RSeq (RAtom (CChar CHR ''?'')) (RSeq (RPlus CAny) REol))) (i, s, g) =
     (case dropWhile is_word_char s of [] \<Rightarrow> []
      | d # q \<Rightarrow>
         if takeWhile is_word_char s \<noteq> [] \<and> d = CHR ''?'' \<and> q \<noteq> [] \<and>
            list_all (\<lambda>c. \<not> is_line_terminator c) q
         then [(i + length s, [], (n, takeWhile is_word_char s) # g)] else [])"
proof -
  let ?b = "RSeq (RAtom (CChar CHR ''?'')) (RSeq (RPlus CAny) REol)"
  have "\<And>k. 1 \<le> k \<Longrightarrow> k < length (takeWhile (in_class CWord) s) \<Longrightarrow>
      rmatch ?b (i + k, drop k s, (n, take k s) # g) = []"
  proof -
    fix k assume "1 \<le> k" "k < length (takeWhile (in_class CWord) s)"
    then obtain x r where "drop k s = x # r" "in_class CWord x"
      using drop_inside_takeWhile [of k "in_class CWord" s] by blast
    then show "rmatch ?b (i + k, drop k s, (n, take k s) # g) = []"
      by (auto simp: rmatch_Seq_Atom)
  qed
  then have "rmatch (RSeq (RGroup n (RPlus CWord)) ?b) (i, s, g) =
     (if takeWhile is_word_char s = [] then []
      else rmatch ?b (i + length (takeWhile is_word_char s), dropWhile is_word_char s,
                     (n, takeWhile is_word_char s) # g))"
    using rmatch_Seq_Group_Plus_last [of CWord s ?b i n g] by simp
  also have "\<dots> = (case dropWhile is_word_char s of [] \<Rightarrow> []
      | d # q \<Rightarrow>
         if takeWhile is_word_char s \<noteq> [] \<and> d = CHR ''?'' \<and> q \<noteq> [] \<and>
            list_all (\<lambda>c. \<not> is_line_terminator c) q
         then [(i + length s, [], (n, takeWhile is_word_char s) # g)] else [])"
  proof (cases "dropWhile is_word_char s")
    case Nil
    show ?thesis unfolding Nil by (simp add: rmatch_Seq_Atom)
  next
    case (Cons d q)
    have "length s = length (takeWhile is_word_char s) + length (dropWhile is_word_char s)"
      by (metis length_append takeWhile_dropWhile_id)
    then have len: "length s = Suc (length (takeWhile is_word_char s) + length q)"
      using Cons by simp
    have "rmatch ?b (i + length (takeWhile is_word_char s), d # q, (n, takeWhile is_word_char s) # g)
        = (if d = CHR ''?'' \<and> q \<noteq> [] \<and> list_all (\<lambda>c. \<not> is_line_terminator c) q
           then [(i + length s, [], (n, takeWhile is_word_char s) # g)] else [])"
      using len by (simp add: rmatch_Seq_Atom rmatch_any_Eol)
    then show ?thesis unfolding Cons by auto
  qed
  finally show ?thesis .
qed

lemma rmatch_format:
  "rmatch (RSeq (lit w) (RGroup n (RPlus CWord))) (i, s, g) =
     (if prefix w s
      then map (\<lambda>k. (i + length w + k, drop k (drop (length w) s),
                       (n, take k (drop (length w) s)) # g))
             (rev [1..<Suc (length (takeWhile is_word_char (drop (length w) s)))])
      else [])"
  by (simp add: rmatch_Seq_lit rmatch.simps(5,7) comp_def)

lemma hd_rev_upt: "0 < m \<Longrightarrow> rev [1..<Suc m] = m # rev [1..<m]"
  by (cases m) simp_all

lemma first_caps_simps [simp]:
  "first_caps [] = None" "first_caps ((j, t, g) # rs) = Some g"
  by (simp_all add: first_caps_def)

lemma first_caps_append:
  "first_caps (xs @ ys) = (case first_caps xs of Some g \<Rightarrow> Some g | None \<Rightarrow> first_caps ys)"
  by (cases xs) (auto simp: first_caps_def)

lemma first_caps_format:
  "first_caps (rmatch (RSeq (lit ''format='') (RGroup 1 (RPlus CWord))) (i, s, [])) =
     map_option (\<lambda>e. [(1, e)]) (format_at s)"
proof (cases "prefix ''format='' s \<and> takeWhile is_word_char (drop (length ''format='') s) \<noteq> []")
  case True
  then have "0 < length (takeWhile is_word_char (drop (length ''format='') s))" by blast
  from hd_rev_upt [OF this] True show ?thesis
    unfolding rmatch_format format_at_def
    by (simp add: takeWhile_eq_take [symmetric])
next
  case False
  then show ?thesis
    unfolding rmatch_format format_at_def by auto
qed

lemma rmatch_dot_end:
  "rmatch (RSeq (RAtom (CChar CHR ''.'')) (RSeq (RGroup 2 (RPlus CWord)) REol)) (i, s, []) =
     (case dot_ext_end_at s of None \<Rightarrow> [] | Some e \<Rightarrow> [(i + length s, [], [(2, e)])])"
  by (cases s) (simp_all add: rmatch_Seq_Atom rmatch_word_Eol dot_ext_end_at_def)

lemma rmatch_dot_query:
  "rmatch (RSeq (RAtom (CChar CHR ''.'')) (RSeq (RGroup 3 (RPlus CWord))
            (RSeq (RAtom (CChar CHR ''?'')) (RSeq (RPlus CAny) REol)))) (i, s, []) =
     (case dot_ext_query_at s of None \<Rightarrow> [] | Some e \<Rightarrow> [(i + length s, [], [(3, e)])])"
proof (cases s)
  case Nil
  then show ?thesis by (simp add: rmatch_Seq_Atom dot_ext_query_at_def)
next
  case (Cons c r)
  show ?thesis
  proof (cases "dropWhile is_word_char r")
    case Nil
    show ?thesis
      by (simp add: \<open>s = c # r\<close> dot_ext_query_at_def rmatch_Seq_Atom rmatch_word_query Nil)
  next
    case (Cons d q)
    show ?thesis
      by (simp add: \<open>s = c # r\<close> dot_ext_query_at_def rmatch_Seq_Atom rmatch_word_query Cons)
  qed
qed

lemma first_caps_fileExtension:
  "first_caps (rmatch fileExtension_regex (i, s, [])) =
     (case format_at s of Some e \<Rightarrow> Some [(1, e)] | None \<Rightarrow>
     (case dot_ext_end_at s of Some e \<Rightarrow> Some [(2, e)] | None \<Rightarrow>
        map_option (\<lambda>e. [(3, e)]) (dot_ext_query_at s)))"
  unfolding fileExtension_regex_def rmatch.simps(4) first_caps_append first_caps_format
    rmatch_dot_end rmatch_dot_query
  by (auto split: option.splits)

lemma ext_of_first_caps:
  "ext_of_match (first_caps (rmatch fileExtension_regex (i, s, []))) = ext_at s"
  unfolding first_caps_fileExtension
  by (auto simp: ext_of_match_def ext_at_def ext_of_def group_def split: option.splits)

lemma first_caps_None_iff:
  "(first_caps (rmatch fileExtension_regex (i, s, [])) = None) = (ext_at s = None)"
  unfolding first_caps_fileExtension
  by (auto simp: ext_at_def split: option.splits)

lemma exec_from_first_caps:
  "exec_from r i [] = first_caps (rmatch r (i, [], []))"
  "exec_from r i (c # cs) =
     (case first_caps (rmatch r (i, c # cs, [])) of Some g \<Rightarrow> Some g | None \<Rightarrow> exec_from r (Suc i) cs)"
  by (auto simp: first_caps_def split: list.splits)

lemma exec_from_fileExtension:
  "ext_of_match (exec_from fileExtension_regex i s) = first_match ext_at s"
proof (induction s arbitrary: i)
  case Nil
  show ?case unfolding exec_from_first_caps first_match.simps by (rule ext_of_first_caps)
next
  case (Cons c cs)
  show ?case
  proof (cases "first_caps (rmatch fileExtension_regex (i, c # cs, []))")
    case None
    then have "ext_at (c # cs) = None"
      using first_caps_None_iff [of i "c # cs"] by simp
    with None Cons.IH [of "Suc i"] show ?thesis
      by (simp add: exec_from_first_caps del: exec_from.simps)
  next
    case (Some g)
    then have "ext_at (c # cs) \<noteq> None"
      using first_caps_None_iff [of i "c # cs"] by simp
    then obtain e where e: "ext_at (c # cs) = Some e" by blast
    then have "ext_of g = Some e"
      using ext_of_first_caps [of i "c # cs"] Some by (simp add: ext_of_match_def)
    with Some e show ?thesis
      by (simp add: exec_from_first_caps ext_of_match_def del: exec_from.simps)
  qed
qed

lemma rmatch_dot_word_Eol:
  "rmatch (RSeq (RAtom (CChar CHR ''.'')) (RSeq (RGroup n (RPlus CWord)) REol)) (j, t, g) =
     (case t of [] \<Rightarrow> []
      | c # e \<Rightarrow> if c = CHR ''.'' \<and> e \<noteq> [] \<and> list_all is_word_char e
                 then [(Suc j + length e, [], (n, e) # g)] else [])"
  by (cases t) (simp_all add: rmatch_Seq_Atom rmatch_word_Eol)

lemma prefix_append_drop:
  "prefix (a @ b) s = (prefix a s \<and> prefix b (drop (length a) s))"
proof (induction a arbitrary: s)
  case Nil
  then show ?case by simp
next
  case (Cons x a)
  then show ?case by (cases s) auto
qed

lemma rmatch_Seq_Opt:
  "rmatch (RSeq (ROpt c) b) (i, s, g) =
     (case s of [] \<Rightarrow> [] | x # xs \<Rightarrow> if in_class c x then rmatch b (Suc i, xs, g) else [])
     @ rmatch b (i, s, g)"
  by (cases s) (simp_all add: rmatch.simps)

lemma rmatch_Plus: "rmatch (RPlus c) (i, t, g) = plus_states c i t g"
  by (simp add: rmatch.simps plus_states_def)

lemma rmatch_Seq_Opt_lit:
  assumes "c \<noteq> d"
  shows "rmatch (RSeq (ROpt (CChar c)) (RSeq (lit (d # L)) X)) (i, s, g) =
     (if prefix (c # d # L) s
      then rmatch X (i + length (c # d # L), drop (length (c # d # L)) s, g)
      else if prefix (d # L) s
      then rmatch X (i + length (d # L), drop (length (d # L)) s, g)
      else [])"
proof (cases s)
  case Nil
  then show ?thesis by (simp add: rmatch_Seq_Opt rmatch_Seq_lit)
next
  case (Cons x xs)
  with assms show ?thesis by (simp add: rmatch_Seq_Opt rmatch_Seq_lit)
qed

lemma rmatch_host:
  "rmatch (RSeq (lit ''http'') (RSeq (ROpt (CChar CHR ''s''))
            (RSeq (lit ''://pbs.twimg.com/media/'') (RPlus CAny)))) (i, s, g) =
     (case media_host_prefix s of
        None \<Rightarrow> []
      | Some h \<Rightarrow> plus_states CAny (i + length h) (drop (length h) s) g)"
proof -
  have p1: "prefix ''https://pbs.twimg.com/media/'' s =
      (prefix ''http'' s \<and> prefix ''s://pbs.twimg.com/media/'' (drop (length ''http'') s))"
    using prefix_append_drop [of "''http''" "''s://pbs.twimg.com/media/''" s] by simp
  have p2: "prefix ''http://pbs.twimg.com/media/'' s =
      (prefix ''http'' s \<and> prefix ''://pbs.twimg.com/media/'' (drop (length ''http'') s))"
    using prefix_append_drop [of "''http''" "''://pbs.twimg.com/media/''" s] by simp
  show ?thesis
    unfolding media_host_prefix_def p1 p2
    by (simp add: rmatch_Seq_lit rmatch_Seq_Opt_lit rmatch_Plus add.assoc)
qed

lemma takeWhile_rev_word:
  assumes "list_all is_word_char e"
  shows "takeWhile is_word_char (rev (b @ CHR ''.'' # e)) = rev e"
proof -
  have "takeWhile is_word_char (rev e @ CHR ''.'' # rev b) =
      rev e @ takeWhile is_word_char (CHR ''.'' # rev b)"
    using assms by (intro takeWhile_append2) (simp add: list_all_iff)
  then show ?thesis by simp
qed

lemma split_ext_iff:
  "(split_ext body = Some (b, e)) =
     (b \<noteq> [] \<and> e \<noteq> [] \<and> list_all is_word_char e \<and>
      list_all (\<lambda>c. \<not> is_line_terminator c) b \<and> body = b @ CHR ''.'' # e)"
proof
  assume a: "split_ext body = Some (b, e)"
  define e0 where "e0 = rev (takeWhile is_word_char (rev body))"
  define b0 where "b0 = take (length body - length e0 - 1) body"
  have "split_ext body = (if e0 \<noteq> [] \<and> b0 \<noteq> [] \<and> body = b0 @ CHR ''.'' # e0 \<and>
            list_all (\<lambda>c. \<not> is_line_terminator c) b0 then Some (b0, e0) else None)"
    by (simp add: split_ext_def Let_def e0_def b0_def)
  with a have c: "e0 \<noteq> [] \<and> b0 \<noteq> [] \<and> body = b0 @ CHR ''.'' # e0 \<and>
            list_all (\<lambda>c. \<not> is_line_terminator c) b0" and be: "b0 = b" "e0 = e"
    by (simp_all split: if_splits)
  have e: "e = rev (takeWhile is_word_char (rev body))" using be e0_def by simp
  have r: "b \<noteq> []" "e \<noteq> []" "list_all (\<lambda>c. \<not> is_line_terminator c) b" "body = b @ CHR ''.'' # e"
    using c unfolding be by simp_all
  have "\<forall>x\<in>set (takeWhile is_word_char (rev body)). is_word_char x"
    using set_takeWhileD by fastforce
  then have "list_all is_word_char e" unfolding e by (simp add: list_all_iff)
  with r show "b \<noteq> [] \<and> e \<noteq> [] \<and> list_all is_word_char e \<and>
      list_all (\<lambda>c. \<not> is_line_terminator c) b \<and> body = b @ CHR ''.'' # e" by simp
next
  assume a: "b \<noteq> [] \<and> e \<noteq> [] \<and> list_all is_word_char e \<and>
      list_all (\<lambda>c. \<not> is_line_terminator c) b \<and> body = b @ CHR ''.'' # e"
  then have body: "body = b @ CHR ''.'' # e" by simp
  have t: "rev (takeWhile is_word_char (rev body)) = e"
    unfolding body using a takeWhile_rev_word [of e b] by simp
  have l: "take (length body - length e - 1) body = b"
    unfolding body by simp
  show "split_ext body = Some (b, e)"
    unfolding split_ext_def Let_def t l using a by simp
qed

lemma concat_map_single:
  assumes "k0 \<in> set ks" "distinct ks" "\<And>k. k \<in> set ks \<Longrightarrow> k \<noteq> k0 \<Longrightarrow> F k = []"
  shows "concat (map F ks) = F k0"
  using assms
proof (induction ks)
  case Nil
  then show ?case by simp
next
  case (Cons a ks)
  show ?case
  proof (cases "a = k0")
    case True
    then have "concat (map F ks) = []"
      using Cons.prems by (intro concat_map_all_Nil) auto
    with True show ?thesis by simp
  next
    case False
    then have "F a = []" using Cons.prems by simp
    moreover have "concat (map F ks) = F k0"
      using Cons.prems False by (intro Cons.IH) auto
    ultimately show ?thesis by simp
  qed
qed

lemma dot_word_at:
  assumes "k \<le> length (takeWhile (\<lambda>c. \<not> is_line_terminator c) body)" "1 \<le> k"
  shows "(\<exists>e. drop k body = CHR ''.'' # e \<and> e \<noteq> [] \<and> list_all is_word_char e) =
         (\<exists>e. split_ext body = Some (take k body, e))"
proof
  assume "\<exists>e. drop k body = CHR ''.'' # e \<and> e \<noteq> [] \<and> list_all is_word_char e"
  then obtain e where e: "drop k body = CHR ''.'' # e" "e \<noteq> []" "list_all is_word_char e"
    by blast
  then have body: "body = take k body @ CHR ''.'' # e"
    by (metis append_take_drop_id)
  have "k < length body" using e(1) by (cases "k < length body") auto
  then have ne: "take k body \<noteq> []" using assms(2) by auto
  have "take k body = take k (takeWhile (\<lambda>c. \<not> is_line_terminator c) body)"
    using assms(1) by (metis takeWhile_eq_take take_take min.absorb1 min.commute)
  then have "set (take k body) \<subseteq> set (takeWhile (\<lambda>c. \<not> is_line_terminator c) body)"
    by (metis set_take_subset)
  then have "list_all (\<lambda>c. \<not> is_line_terminator c) (take k body)"
    using set_takeWhileD by (fastforce simp: list_all_iff)
  with body ne e have "split_ext body = Some (take k body, e)"
    by (subst split_ext_iff) simp
  then show "\<exists>e. split_ext body = Some (take k body, e)" by blast
next
  assume "\<exists>e. split_ext body = Some (take k body, e)"
  then obtain e where "split_ext body = Some (take k body, e)" by blast
  then have e: "e \<noteq> []" "list_all is_word_char e" "body = take k body @ CHR ''.'' # e"
    by (simp_all add: split_ext_iff)
  then have "drop k body = CHR ''.'' # e"
    by (metis append_eq_conv_conj append_take_drop_id)
  with e show "\<exists>e. drop k body = CHR ''.'' # e \<and> e \<noteq> [] \<and> list_all is_word_char e" by blast
qed

lemma rmatch_Seq_Bol:
  "rmatch (RSeq RBol X) (i, s, g) = (if i = 0 then rmatch X (i, s, g) else [])"
  by (simp add: rmatch.simps)

lemma rmatch_Seq_Group:
  "rmatch (RSeq (RGroup n r) b) (i, s, g) =
     concat (map (\<lambda>(j, s', g'). rmatch b (j, s', (n, take (j - i) s) # g')) (rmatch r (i, s, g)))"
  by (simp add: rmatch.simps comp_def case_prod_unfold)

lemma media_host_prefix_Some:
  "media_host_prefix s = Some h \<Longrightarrow> s = h @ drop (length h) s"
  by (auto simp: media_host_prefix_def prefix_def split: if_splits)

lemma first_caps_twitterImage:
  "first_caps (rmatch twitterImage_regex (0, s, [])) =
     (case split_media_url s of None \<Rightarrow> None | Some (base, ext) \<Rightarrow> Some [(2, ext), (1, base)])"
proof (cases "media_host_prefix s")
  case None
  then show ?thesis
    by (simp add: twitterImage_regex_def rmatch_Seq_Bol rmatch_Seq_Group rmatch_host
        split_media_url_def)
next
  case (Some h)
  define body where "body = drop (length h) s"
  define m where "m = length (takeWhile (\<lambda>c. \<not> is_line_terminator c) body)"
  define F where "F = (\<lambda>k. rmatch (RSeq (RAtom (CChar CHR ''.'')) (RSeq (RGroup 2 (RPlus CWord)) REol))
      (length h + k, drop k body, [(1, take (length h + k) s)]))"
  have s: "s = h @ body" using media_host_prefix_Some [OF Some] by (simp add: body_def)
  have run: "rmatch twitterImage_regex (0, s, []) = concat (map F (rev [1..<Suc m]))"
    by (simp add: twitterImage_regex_def rmatch_Seq_Bol rmatch_Seq_Group rmatch_host Some
        plus_states_def comp_def F_def body_def m_def)
  have F: "\<And>k. F k = (case drop k body of [] \<Rightarrow> []
      | c # e \<Rightarrow> if c = CHR ''.'' \<and> e \<noteq> [] \<and> list_all is_word_char e
                 then [(Suc (length h + k) + length e, [], [(2, e), (1, take (length h + k) s)])]
                 else [])"
    unfolding F_def by (rule rmatch_dot_word_Eol)
  have Fnil: "\<And>k. \<not> (\<exists>e. drop k body = CHR ''.'' # e \<and> e \<noteq> [] \<and> list_all is_word_char e)
      \<Longrightarrow> F k = []"
    unfolding F by (auto split: list.splits)
  show ?thesis
  proof (cases "split_ext body")
    case None
    have "\<And>k. k \<in> set (rev [1..<Suc m]) \<Longrightarrow> F k = []"
    proof -
      fix k assume "k \<in> set (rev [1..<Suc m])"
      then have k: "1 \<le> k" "k \<le> length (takeWhile (\<lambda>c. \<not> is_line_terminator c) body)"
        by (auto simp: m_def)
      show "F k = []"
        using dot_word_at [OF k(2) k(1)] None by (intro Fnil) simp
    qed
    then have c: "concat (map F (rev [1..<Suc m])) = []" by (rule concat_map_all_Nil)
    show ?thesis
      unfolding run c using None Some by (simp add: split_media_url_def body_def)
  next
    case (Some be)
    obtain b e where be: "be = (b, e)" by (cases be)
    with Some have sp: "split_ext body = Some (b, e)" by simp
    then have p: "b \<noteq> []" "e \<noteq> []" "list_all is_word_char e"
      "list_all (\<lambda>c. \<not> is_line_terminator c) b" "body = b @ CHR ''.'' # e"
      by (simp_all add: split_ext_iff)
    have "takeWhile (\<lambda>c. \<not> is_line_terminator c) body =
        b @ takeWhile (\<lambda>c. \<not> is_line_terminator c) (CHR ''.'' # e)"
      unfolding p(5) using p(4) by (intro takeWhile_append2) (simp add: list_all_iff)
    then have "length b \<le> m" by (simp add: m_def)
    moreover have "1 \<le> length b" using p(1) by (cases b) simp_all
    ultimately have mem: "length b \<in> set (rev [1..<Suc m])" by auto
    have others: "\<And>k. k \<in> set (rev [1..<Suc m]) \<Longrightarrow> k \<noteq> length b \<Longrightarrow> F k = []"
    proof -
      fix k assume "k \<in> set (rev [1..<Suc m])" and ne: "k \<noteq> length b"
      then have k: "1 \<le> k" "k \<le> length (takeWhile (\<lambda>c. \<not> is_line_terminator c) body)"
        by (auto simp: m_def)
      have "k \<le> length body" using k(2) length_takeWhile_le [of _ body] by (meson order_trans)
      then have "length (take k body) = k" by simp
      then have "take k body \<noteq> b" using ne by auto
      then have "\<not> (\<exists>e. split_ext body = Some (take k body, e))" using sp by simp
      then show "F k = []"
        using dot_word_at [OF k(2) k(1)] by (intro Fnil) simp
    qed
    have c: "concat (map F (rev [1..<Suc m])) = F (length b)"
      using mem _ others by (rule concat_map_single) simp
    have Fb: "F (length b) =
        [(Suc (length h + length b) + length e, [], [(2, e), (1, h @ b)])]"
      unfolding F using p by (simp add: s)
    show ?thesis
      unfolding run c Fb using \<open>media_host_prefix s = Some h\<close> sp
      by (simp add: split_media_url_def body_def)
  qed
qed

lemma exec_from_Bol: "exec_from twitterImage_regex (Suc i) s = None"
  by (induction s arbitrary: i) (simp_all add: twitterImage_regex_def rmatch_Seq_Bol)

lemma regex_exec_twitterImage:
  "regex_exec twitterImage_regex s =
     (case split_media_url s of None \<Rightarrow> None | Some (base, ext) \<Rightarrow> Some [(2, ext), (1, base)])"
proof -
  have "regex_exec twitterImage_regex s = first_caps (rmatch twitterImage_regex (0, s, []))"
    by (cases s) (simp_all add: regex_exec_def exec_from_first_caps exec_from_Bol del: exec_from.simps
        split: option.splits)
  then show ?thesis by (simp only: first_caps_twitterImage)
qed

section \<open>Media resolver: extensions, image URLs and bitrates\<close>

text \<open>
  C3. \<open>getFileExtensionFromUrl\<close> returns the extension found at the
  leftmost place of the URL where one of the three patterns matches: \<open>format=<ext>\<close>,
  \<open>.<ext>\<close> at the very end, or \<open>.<ext>?\<close> followed by a non-empty rest of the URL
  without a line break; it returns \<open>jpg\<close> when there is no such place.
\<close>

theorem getFileExtensionFromUrl_leftmost:
  "getFileExtensionFromUrl u = fileExtension_leftmost u"
  using exec_from_fileExtension [of 0 u]
  by (auto simp: getFileExtensionFromUrl_def fileExtension_leftmost_def regex_exec_def
      ext_of_match_def ext_of_def split: option.splits)

theorem getFileExtensionFromUrl_leftmost_witness:
  "getFileExtensionFromUrl ''https://pbs.twimg.com/card_img/123/Y1N?format=png&name=orig'' = ''png'' \<and>
   getFileExtensionFromUrl ''https://pbs.twimg.com/profile_banners/468/169'' = ''jpg'' \<and>
   getFileExtensionFromUrl ''https://pbs.twimg.com/media/F1aT_M9aAAEgJwi.jpg'' = ''jpg'' \<and>
   getFileExtensionFromUrl
     ''https://video.twimg.com/ext_tw_video/1/pu/vid/avc1/1508x1080/xU8.mp4?tag=14'' = ''mp4''"
  unfolding getFileExtensionFromUrl_leftmost by code_simp

text \<open>The URL below has a \<open>format=png\<close> parameter, so the attempts taken in order
  give \<open>png\<close>; the code answers \<open>jpg\<close>, from the \<open>.jpg?\<close> that stands further left.\<close>

theorem getFileExtensionFromUrl_in_order_counterexample:
  "fileExtension_in_order ''https://pbs.twimg.com/media/ABC.jpg?format=png&name=orig'' = ''png'' \<and>
   getFileExtensionFromUrl ''https://pbs.twimg.com/media/ABC.jpg?format=png&name=orig'' = ''jpg'' \<and>
   getFileExtensionFromUrl ''https://pbs.twimg.com/media/ABC.jpg?format=png&name=orig''
     \<noteq> fileExtension_in_order ''https://pbs.twimg.com/media/ABC.jpg?format=png&name=orig''"
  by code_simp

text \<open>
  C9. For every URL and every size, given or left out (then \<open>medium\<close>),
  \<open>formatTwitterImage\<close> is the \<open>formatImageUrl\<close> of the specification: a URL made of
  \<open>http://\<close> or \<open>https://\<close>, \<open>pbs.twimg.com/media/\<close>, a non-empty base and a dotted
  extension of word characters becomes \<open><host><base>?format=<ext>&name=<size>\<close>; any
  other URL comes back with \<open>?name=<size>\<close> appended.
\<close>

theorem formatTwitterImage_rewrite:
  "formatTwitterImage u name = formatImageUrl_spec u name"
  by (simp add: formatTwitterImage_def formatImageUrl_spec_def regex_exec_twitterImage Let_def
      group_def template_def split: option.splits)

theorem formatTwitterImage_rewrite_witness:
  "formatTwitterImage ''https://pbs.twimg.com/media/ABC123.jpg'' (Some orig) =
     ''https://pbs.twimg.com/media/ABC123?format=jpg&name=orig'' \<and>
   formatTwitterImage ''https://pbs.twimg.com/media/ABC123.jpg'' None =
     ''https://pbs.twimg.com/media/ABC123?format=jpg&name=medium'' \<and>
   formatTwitterImage ''https://pbs.twimg.com/profile_banners/468/169'' (Some small) =
     ''https://pbs.twimg.com/profile_banners/468/169?name=small''"
  unfolding formatTwitterImage_rewrite by code_simp

lemma bitrate_or_0_Some [simp]: "bitrate_or_0 (Some v) = effective_bitrate v"
  by (simp add: bitrate_or_0_def effective_bitrate_def)

lemma max_bitrate_loop_step:
  assumes "0 \<le> effective_bitrate m"
  shows "max_bitrate_loop (v # vs) (Some m) =
     max_bitrate_loop vs (Some (if effective_bitrate m < effective_bitrate v then v else m))"
  using assms by (auto simp: effective_bitrate_def split: option.splits)

lemma max_bitrate_loop_greatest:
  assumes "\<forall>v\<in>set vs. 0 \<le> effective_bitrate v" and "0 \<le> effective_bitrate m"
  shows "(max_bitrate_loop vs (Some m) = Some m \<and>
            (\<forall>v\<in>set vs. effective_bitrate v \<le> effective_bitrate m)) \<or>
         (\<exists>i<length vs. max_bitrate_loop vs (Some m) = Some (vs ! i) \<and>
            effective_bitrate m < effective_bitrate (vs ! i) \<and>
            (\<forall>v\<in>set vs. effective_bitrate v \<le> effective_bitrate (vs ! i)) \<and>
            (\<forall>v\<in>set (take i vs). effective_bitrate v < effective_bitrate (vs ! i)))"
  using assms
proof (induction vs arbitrary: m)
  case Nil
  then show ?case by simp
next
  case (Cons v vs)
  let ?m' = "if effective_bitrate m < effective_bitrate v then v else m"
  have step: "max_bitrate_loop (v # vs) (Some m) = max_bitrate_loop vs (Some ?m')"
    using Cons.prems(2) by (rule max_bitrate_loop_step)
  have nn: "\<forall>w\<in>set vs. 0 \<le> effective_bitrate w" "0 \<le> effective_bitrate ?m'"
    using Cons.prems by auto
  from Cons.IH [OF nn] show ?case
  proof
    assume a: "max_bitrate_loop vs (Some ?m') = Some ?m' \<and>
      (\<forall>w\<in>set vs. effective_bitrate w \<le> effective_bitrate ?m')"
    show ?thesis
    proof (cases "effective_bitrate m < effective_bitrate v")
      case True
      with a have "0 < length (v # vs) \<and> max_bitrate_loop (v # vs) (Some m) = Some ((v # vs) ! 0) \<and>
            effective_bitrate m < effective_bitrate ((v # vs) ! 0) \<and>
            (\<forall>w\<in>set (v # vs). effective_bitrate w \<le> effective_bitrate ((v # vs) ! 0)) \<and>
            (\<forall>w\<in>set (take 0 (v # vs)). effective_bitrate w < effective_bitrate ((v # vs) ! 0))"
        unfolding step by simp
      then show ?thesis by blast
    next
      case False
      with a show ?thesis unfolding step by auto
    qed
  next
    assume "\<exists>i<length vs. max_bitrate_loop vs (Some ?m') = Some (vs ! i) \<and>
            effective_bitrate ?m' < effective_bitrate (vs ! i) \<and>
            (\<forall>w\<in>set vs. effective_bitrate w \<le> effective_bitrate (vs ! i)) \<and>
            (\<forall>w\<in>set (take i vs). effective_bitrate w < effective_bitrate (vs ! i))"
    then obtain i where i: "i < length vs" "max_bitrate_loop vs (Some ?m') = Some (vs ! i)"
      "effective_bitrate ?m' < effective_bitrate (vs ! i)"
      "\<forall>w\<in>set vs. effective_bitrate w \<le> effective_bitrate (vs ! i)"
      "\<forall>w\<in>set (take i vs). effective_bitrate w < effective_bitrate (vs ! i)"
      by blast
    have lt: "effective_bitrate m < effective_bitrate (vs ! i)"
      "effective_bitrate v < effective_bitrate (vs ! i)"
      using i(3) by (auto split: if_splits)
    have "Suc i < length (v # vs) \<and>
        max_bitrate_loop (v # vs) (Some m) = Some ((v # vs) ! Suc i) \<and>
        effective_bitrate m < effective_bitrate ((v # vs) ! Suc i) \<and>
        (\<forall>w\<in>set (v # vs). effective_bitrate w \<le> effective_bitrate ((v # vs) ! Suc i)) \<and>
        (\<forall>w\<in>set (take (Suc i) (v # vs)). effective_bitrate w < effective_bitrate ((v # vs) ! Suc i))"
      unfolding step using i lt by auto
    then show ?thesis by blast
  qed
qed

lemma selects_greatest_bitrateI:
  assumes "i < length vs" "u = url (vs ! i)"
    "\<forall>v\<in>set vs. effective_bitrate v \<le> effective_bitrate (vs ! i)"
    "\<forall>v\<in>set (take i vs). effective_bitrate v < effective_bitrate (vs ! i)"
  shows "selects_greatest_bitrate vs u"
  unfolding selects_greatest_bitrate_def list_ex_iff list_all_iff
  using assms by (intro bexI [of _ i]) auto

text \<open>
  C4. For a media record of type \<open>video\<close> or \<open>animated_gif\<close> none of whose
  variants has a negative bitrate, \<open>getMediaOriginalUrl\<close> returns the base URL when
  there is no variant, and otherwise the URL of a variant whose bitrate (0 when
  missing) is the greatest of the list and greater than that of every variant
  before it.
\<close>

theorem getMediaOriginalUrl_greatest_bitrate:
  assumes "type media = video \<or> type media = animated_gif"
    and "\<forall>v\<in>set (media_variants media). 0 \<le> effective_bitrate v"
  shows "originalUrl_as_specified media"
proof (cases "media_variants media")
  case Nil
  with assms(1) show ?thesis
    by (auto simp: originalUrl_as_specified_def getMediaOriginalUrl_def)
next
  case (Cons v vs)
  have nn: "\<forall>w\<in>set (v # vs). 0 \<le> effective_bitrate w" "0 \<le> effective_bitrate v"
    using assms(2) Cons by auto
  have res: "getMediaOriginalUrl media =
      (case max_bitrate_loop (v # vs) (Some v) of None \<Rightarrow> media_url_https media | Some w \<Rightarrow> url w)"
    using assms(1) Cons by (auto simp: getMediaOriginalUrl_def)
  from max_bitrate_loop_greatest [OF nn] have "selects_greatest_bitrate (v # vs) (getMediaOriginalUrl media)"
  proof
    assume "max_bitrate_loop (v # vs) (Some v) = Some v \<and>
       (\<forall>w\<in>set (v # vs). effective_bitrate w \<le> effective_bitrate v)"
    then show ?thesis
      unfolding res by (intro selects_greatest_bitrateI [of 0]) simp_all
  next
    assume "\<exists>i<length (v # vs). max_bitrate_loop (v # vs) (Some v) = Some ((v # vs) ! i) \<and>
       effective_bitrate v < effective_bitrate ((v # vs) ! i) \<and>
       (\<forall>w\<in>set (v # vs). effective_bitrate w \<le> effective_bitrate ((v # vs) ! i)) \<and>
       (\<forall>w\<in>set (take i (v # vs)). effective_bitrate w < effective_bitrate ((v # vs) ! i))"
    then obtain i where "i < length (v # vs)"
      "max_bitrate_loop (v # vs) (Some v) = Some ((v # vs) ! i)"
      "\<forall>w\<in>set (v # vs). effective_bitrate w \<le> effective_bitrate ((v # vs) ! i)"
      "\<forall>w\<in>set (take i (v # vs)). effective_bitrate w < effective_bitrate ((v # vs) ! i)"
      by blast
    then show ?thesis
      unfolding res by (intro selects_greatest_bitrateI [of i]) simp_all
  qed
  with Cons show ?thesis by (simp add: originalUrl_as_specified_def)
qed

theorem getMediaOriginalUrl_greatest_bitrate_witness: "getMediaOriginalUrl sample_video = ''b'' \<and> originalUrl_as_specified sample_video"
  using getMediaOriginalUrl_greatest_bitrate [of sample_video]
  by (simp add: sample_video_def media_variants_def effective_bitrate_def getMediaOriginalUrl_def
      bitrate_or_0_def)

text \<open>With a negative bitrate the variant returned need not be the greatest: the
  first variant below has bitrate -5, the second has none (so 0), and the first is
  returned.\<close>

theorem getMediaOriginalUrl_negative_bitrate_counterexample:
  "type sample_negative_video = video \<and> getMediaOriginalUrl sample_negative_video = ''a'' \<and>
   \<not> originalUrl_as_specified sample_negative_video"
  by (simp add: sample_negative_video_def originalUrl_as_specified_def selects_greatest_bitrate_def
      media_variants_def effective_bitrate_def getMediaOriginalUrl_def bitrate_or_0_def)

end
